theory Spec2Isabelle
  imports Main "HOL-Library.Word" "HOL-Library.Signed_Division"
begin

unbundle bit_operations_syntax

section \<open>Machine types of \<^verbatim>\<open>lw_math.h\<close>\<close>

text \<open>
  The library is written for a 32-bit target (its comments name the Cortex-M3):
  \<^verbatim>\<open>int\<close> is 32 bits wide, so every \<^verbatim>\<open>int16_t\<close>, \<^verbatim>\<open>uint16_t\<close> and \<^verbatim>\<open>uint8_t\<close>
  operand is promoted to a 32-bit \<^verbatim>\<open>int\<close> before arithmetic. Fixed-width integers
  are machine words; signed arithmetic wraps in the model, and the theorems below show
  where it stays in range.
\<close>

type_synonym int16_t = "16 word"
type_synonym int32_t = "32 word"
type_synonym uint8_t = "8 word"
type_synonym uint16_t = "16 word"
type_synonym uint32_t = "32 word"
type_synonym fix_t = "32 word"

text \<open>
  The structs of the header. A field \<^verbatim>\<open>f\<close> of the C struct is the selector \<open>f_C\<close>, so
  that the short field names stay free for variables.
\<close>

record trig_components_t =
  cos_C :: int16_t
  sin_C :: int16_t

record ab_t =
  a_C :: int16_t
  b_C :: int16_t

record qd_t =
  q_C :: int16_t
  d_C :: int16_t

record alphabeta_t =
  alpha_C :: int16_t
  beta_C :: int16_t

text \<open>
  C's \<^verbatim>\<open>/\<close> on signed operands truncates towards zero; on the mathematical integers
  this is \<open>sdiv\<close>. The quotient is stored back into a word of the operands' width.
\<close>

definition c_sdiv :: "'a::len word \<Rightarrow> 'a word \<Rightarrow> 'a word" where
  "c_sdiv x y = word_of_int (sint x sdiv sint y)"

section \<open>The quarter-wave table and the trigonometric evaluator\<close>

definition sin_cos_table :: "int16_t list" where
  "sin_cos_table =
    [
     0x0000, 0x00C9, 0x0192, 0x025B, 0x0324, 0x03ED, 0x04B6, 0x057F,
     0x0648, 0x0711, 0x07D9, 0x08A2, 0x096A, 0x0A33, 0x0AFB, 0x0BC4,
     0x0C8C, 0x0D54, 0x0E1C, 0x0EE3, 0x0FAB, 0x1072, 0x113A, 0x1201,
     0x12C8, 0x138F, 0x1455, 0x151C, 0x15E2, 0x16A8, 0x176E, 0x1833,
     0x18F9, 0x19BE, 0x1A82, 0x1B47, 0x1C0B, 0x1CCF, 0x1D93, 0x1E57,
     0x1F1A, 0x1FDD, 0x209F, 0x2161, 0x2223, 0x22E5, 0x23A6, 0x2467,
     0x2528, 0x25E8, 0x26A8, 0x2767, 0x2826, 0x28E5, 0x29A3, 0x2A61,
     0x2B1F, 0x2BDC, 0x2C99, 0x2D55, 0x2E11, 0x2ECC, 0x2F87, 0x3041,
     0x30FB, 0x31B5, 0x326E, 0x3326, 0x33DF, 0x3496, 0x354D, 0x3604,
     0x36BA, 0x376F, 0x3824, 0x38D9, 0x398C, 0x3A40, 0x3AF2, 0x3BA5,
     0x3C56, 0x3D07, 0x3DB8, 0x3E68, 0x3F17, 0x3FC5, 0x4073, 0x4121,
     0x41CE, 0x427A, 0x4325, 0x43D0, 0x447A, 0x4524, 0x45CD, 0x4675,
     0x471C, 0x47C3, 0x4869, 0x490F, 0x49B4, 0x4A58, 0x4AFB, 0x4B9D,
     0x4C3F, 0x4CE0, 0x4D81, 0x4E20, 0x4EBF, 0x4F5D, 0x4FFB, 0x5097,
     0x5133, 0x51CE, 0x5268, 0x5302, 0x539B, 0x5432, 0x54C9, 0x5560,
     0x55F5, 0x568A, 0x571D, 0x57B0, 0x5842, 0x58D3, 0x5964, 0x59F3,
     0x5A82, 0x5B0F, 0x5B9C, 0x5C28, 0x5CB3, 0x5D3E, 0x5DC7, 0x5E4F,
     0x5ED7, 0x5F5D, 0x5FE3, 0x6068, 0x60EB, 0x616E, 0x61F0, 0x6271,
     0x62F1, 0x6370, 0x63EE, 0x646C, 0x64E8, 0x6563, 0x65DD, 0x6656,
     0x66CF, 0x6746, 0x67BC, 0x6832, 0x68A6, 0x6919, 0x698B, 0x69FD,
     0x6A6D, 0x6ADC, 0x6B4A, 0x6BB7, 0x6C23, 0x6C8E, 0x6CF8, 0x6D61,
     0x6DC9, 0x6E30, 0x6E96, 0x6EFB, 0x6F5E, 0x6FC1, 0x7022, 0x7083,
     0x70E2, 0x7140, 0x719D, 0x71F9, 0x7254, 0x72AE, 0x7307, 0x735E,
     0x73B5, 0x740A, 0x745F, 0x74B2, 0x7504, 0x7555, 0x75A5, 0x75F3,
     0x7641, 0x768D, 0x76D8, 0x7722, 0x776B, 0x77B3, 0x77FA, 0x783F,
     0x7884, 0x78C7, 0x7909, 0x794A, 0x7989, 0x79C8, 0x7A05, 0x7A41,
     0x7A7C, 0x7AB6, 0x7AEE, 0x7B26, 0x7B5C, 0x7B91, 0x7BC5, 0x7BF8,
     0x7C29, 0x7C59, 0x7C88, 0x7CB6, 0x7CE3, 0x7D0E, 0x7D39, 0x7D62,
     0x7D89, 0x7DB0, 0x7DD5, 0x7DFA, 0x7E1D, 0x7E3E, 0x7E5F, 0x7E7E,
     0x7E9C, 0x7EB9, 0x7ED5, 0x7EEF, 0x7F09, 0x7F21, 0x7F37, 0x7F4D,
     0x7F61, 0x7F74, 0x7F86, 0x7F97, 0x7FA6, 0x7FB4, 0x7FC1, 0x7FCD,
     0x7FD8, 0x7FE1, 0x7FE9, 0x7FF0, 0x7FF5, 0x7FF9, 0x7FFD, 0x7FFE
    ]"

definition SIN_MASK :: uint32_t where "SIN_MASK = 0x0300"
definition U0_90 :: uint32_t where "U0_90 = 0x0200"
definition U90_180 :: uint32_t where "U90_180 = 0x0300"
definition U180_270 :: uint32_t where "U180_270 = 0x0000"
definition U270_360 :: uint32_t where "U270_360 = 0x0100"

text \<open>
  A read \<^verbatim>\<open>sin_cos_table[i]\<close>: outside the 256 entries the C program reads past the
  array, which the model reports as \<open>None\<close>.
\<close>

definition table_read :: "nat \<Rightarrow> int16_t option" where
  "table_read i = (if i < length sin_cos_table then Some (sin_cos_table ! i) else None)"

text \<open>
  \<^verbatim>\<open>-sin_cos_table[i]\<close> assigned to an \<^verbatim>\<open>int16_t\<close> field: the entry is promoted to
  \<^verbatim>\<open>int\<close>, negated there, and narrowed back to 16 bits.
\<close>

definition neg_entry :: "int16_t \<Rightarrow> int16_t" where
  "neg_entry x = ucast (- (scast x :: int32_t))"

text \<open>
  The 10-bit index: \<^verbatim>\<open>shindex = 32768 + angle\<close> in 32 bits, narrowed to
  \<^verbatim>\<open>uint16_t\<close>, then divided by 64.
\<close>

definition trig_uhindex :: "int16_t \<Rightarrow> uint16_t" where
  "trig_uhindex angle =
    (let shindex = (32768 :: int32_t) + scast angle;
         uhindex = (ucast shindex :: uint16_t)
     in ucast (c_sdiv (ucast uhindex :: int32_t) (ucast (64 :: uint16_t))))"

text \<open>The selector of the \<^verbatim>\<open>switch\<close>: \<^verbatim>\<open>(uint16_t)(uhindex) & SIN_MASK\<close>.\<close>

definition trig_selector :: "int16_t \<Rightarrow> uint32_t" where
  "trig_selector angle = ucast (trig_uhindex angle) AND SIN_MASK"

text \<open>The two table indices \<^verbatim>\<open>(uint8_t)(uhindex)\<close> and \<^verbatim>\<open>(uint8_t)(0xFFu - (uint8_t)(uhindex))\<close>.\<close>

definition trig_index :: "int16_t \<Rightarrow> uint8_t" where
  "trig_index angle = ucast (trig_uhindex angle)"

definition trig_mirror :: "int16_t \<Rightarrow> uint8_t" where
  "trig_mirror angle = ucast ((0xFF :: uint32_t) - ucast (trig_index angle))"

text \<open>
  \<^verbatim>\<open>lw_math_trig_functions\<close>. The \<^verbatim>\<open>default\<close> branch of the switch returns
  \<^verbatim>\<open>local_components\<close> with both fields never assigned; the model returns \<open>None\<close> there.
\<close>

definition lw_math_trig_functions :: "int16_t \<Rightarrow> trig_components_t option" where
  "lw_math_trig_functions angle =
    (let sel = trig_selector angle;
         direct = table_read (unat (trig_index angle));
         mirrored = table_read (unat (trig_mirror angle))
     in if sel = U0_90 then
          (case (direct, mirrored) of
             (Some t, Some m) \<Rightarrow> Some \<lparr>cos_C = m, sin_C = t\<rparr>
           | _ \<Rightarrow> None)
        else if sel = U90_180 then
          (case (direct, mirrored) of
             (Some t, Some m) \<Rightarrow> Some \<lparr>cos_C = neg_entry t, sin_C = m\<rparr>
           | _ \<Rightarrow> None)
        else if sel = U180_270 then
          (case (direct, mirrored) of
             (Some t, Some m) \<Rightarrow> Some \<lparr>cos_C = neg_entry m, sin_C = neg_entry t\<rparr>
           | _ \<Rightarrow> None)
        else if sel = U270_360 then
          (case (direct, mirrored) of
             (Some t, Some m) \<Rightarrow> Some \<lparr>cos_C = t, sin_C = neg_entry m\<rparr>
           | _ \<Rightarrow> None)
        else None)"

text \<open>
  The same four cases with the reads taken as they are: the result of
  \<^verbatim>\<open>lw_math_trig_functions\<close> once every read is known to be inside the table and the
  selector to be one of the four cases (\<open>lw_math_trig_functions_Some\<close> below).
\<close>

definition trig_value :: "int16_t \<Rightarrow> trig_components_t" where
  "trig_value angle =
    (let t = sin_cos_table ! unat (trig_index angle);
         m = sin_cos_table ! unat (trig_mirror angle)
     in if trig_selector angle = U0_90 then \<lparr>cos_C = m, sin_C = t\<rparr>
        else if trig_selector angle = U90_180 then \<lparr>cos_C = neg_entry t, sin_C = m\<rparr>
        else if trig_selector angle = U180_270 then \<lparr>cos_C = neg_entry m, sin_C = neg_entry t\<rparr>
        else \<lparr>cos_C = t, sin_C = neg_entry m\<rparr>)"

section \<open>Integer square root\<close>

text \<open>
  The \<^verbatim>\<open>do ... while (biter < 6u)\<close> loop of \<^verbatim>\<open>lw_math_sqrt\<close>, entered with the
  current \<^verbatim>\<open>biter\<close> and \<^verbatim>\<open>wtemproot\<close>. Dividing by a zero \<^verbatim>\<open>wtemproot\<close> is
  undefined in C; the model returns \<open>None\<close> there. \<^verbatim>\<open>biter\<close> is a \<^verbatim>\<open>uint8_t\<close>, so
  \<^verbatim>\<open>biter++\<close> wraps at 256.
\<close>

function sqrt_loop :: "int32_t \<Rightarrow> uint8_t \<Rightarrow> int32_t \<Rightarrow> int32_t option" where
  "sqrt_loop input biter wtemproot =
    (if wtemproot = 0 then None
     else
       (let wtemprootnew = c_sdiv (wtemproot + c_sdiv input wtemproot) 2;
            biter' = (if wtemprootnew = wtemproot then 6 else biter + 1);
            wtemproot' = (if wtemprootnew = wtemproot then wtemproot else wtemprootnew)
        in if biter' < 6 then sqrt_loop input biter' wtemproot' else Some wtemprootnew))"
  by pat_completeness auto

termination sqrt_loop
  apply (relation "measure (\<lambda>(input, biter, wtemproot).
          if unat biter < 6 then 6 - unat biter else 262 - unat biter)")
   apply simp
  subgoal for input biter
    using unsigned_less [of biter, where ?'a = nat]
    by (auto simp: word_less_nat_alt unat_word_ariths split: if_splits)
  done

declare sqrt_loop.simps [simp del]

definition lw_math_sqrt :: "int32_t \<Rightarrow> int32_t option" where
  "lw_math_sqrt input =
    (if 0 <s input then
       (let wtemproot = (if input \<le>s 2097152 then 128 else 8192)
        in sqrt_loop input 0 wtemproot)
     else Some 0)"

section \<open>Clarke, Park and inverse Park transforms\<close>

definition divSQRT_3 :: int32_t where "divSQRT_3 = 0x49E6"

definition INT16_MAX :: int32_t where "INT16_MAX = 32767"

definition lw_math_clarke :: "ab_t \<Rightarrow> alphabeta_t" where
  "lw_math_clarke input =
    (let a_divSQRT3_tmp = divSQRT_3 * scast (a_C input);
         b_divSQRT3_tmp = divSQRT_3 * scast (b_C input);
         wbeta_tmp = c_sdiv (- a_divSQRT3_tmp - b_divSQRT3_tmp - b_divSQRT3_tmp) 32768;
         hbeta_tmp = (if INT16_MAX <s wbeta_tmp then ucast INT16_MAX
                      else if wbeta_tmp <s - 32768 then (- 32768 :: int16_t)
                      else ucast wbeta_tmp);
         output = \<lparr>alpha_C = a_C input, beta_C = hbeta_tmp\<rparr>
     in if (- 32768 :: int16_t) = beta_C output then output\<lparr>beta_C := - 32767\<rparr> else output)"

text \<open>
  \<^verbatim>\<open>lw_math_park\<close> reads the fields of what \<^verbatim>\<open>lw_math_trig_functions\<close> returned; where
  those are unassigned the result is \<open>None\<close>.
\<close>

definition lw_math_park :: "alphabeta_t \<Rightarrow> int16_t \<Rightarrow> qd_t option" where
  "lw_math_park input theta =
    (case lw_math_trig_functions theta of
       None \<Rightarrow> None
     | Some Local_Vector_Components \<Rightarrow>
        (let q_tmp_1 = (scast (alpha_C input) :: int32_t) * scast (cos_C Local_Vector_Components);
             q_tmp_2 = (scast (beta_C input) :: int32_t) * scast (sin_C Local_Vector_Components);
             wqd_tmp = c_sdiv (q_tmp_1 - q_tmp_2) 32768;
             hqd_tmp = (if INT16_MAX <s wqd_tmp then ucast INT16_MAX
                        else if wqd_tmp <s - 32768 then (- 32768 :: int16_t)
                        else ucast wqd_tmp);
             output_q = (if (- 32768 :: int16_t) = hqd_tmp then - 32767 else hqd_tmp);
             d_tmp_1 = (scast (alpha_C input) :: int32_t) * scast (sin_C Local_Vector_Components);
             d_tmp_2 = (scast (beta_C input) :: int32_t) * scast (cos_C Local_Vector_Components);
             wqd_tmp = c_sdiv (d_tmp_1 + d_tmp_2) 32768;
             hqd_tmp = (if INT16_MAX <s wqd_tmp then ucast INT16_MAX
                        else if wqd_tmp <s - 32768 then (- 32768 :: int16_t)
                        else ucast wqd_tmp);
             output_d = (if (- 32768 :: int16_t) = hqd_tmp then - 32767 else hqd_tmp)
         in Some \<lparr>q_C = output_q, d_C = output_d\<rparr>))"

definition lw_math_rev_park :: "qd_t \<Rightarrow> int16_t \<Rightarrow> alphabeta_t option" where
  "lw_math_rev_park input theta =
    (case lw_math_trig_functions theta of
       None \<Rightarrow> None
     | Some Local_Vector_Components \<Rightarrow>
        (let alpha_tmp1 = (scast (q_C input) :: int32_t) * scast (cos_C Local_Vector_Components);
             alpha_tmp2 = (scast (d_C input) :: int32_t) * scast (sin_C Local_Vector_Components);
             output_alpha = (ucast (c_sdiv (alpha_tmp1 + alpha_tmp2) 32768) :: int16_t);
             beta_tmp1 = (scast (q_C input) :: int32_t) * scast (sin_C Local_Vector_Components);
             beta_tmp2 = (scast (d_C input) :: int32_t) * scast (cos_C Local_Vector_Components);
             output_beta = (ucast (c_sdiv (beta_tmp2 - beta_tmp1) 32768) :: int16_t)
         in Some \<lparr>alpha_C = output_alpha, beta_C = output_beta\<rparr>))"

section \<open>Fixed-point helpers\<close>

text \<open>
  \<^verbatim>\<open>1L << q\<close> has type \<^verbatim>\<open>long\<close>, whose width the C standard leaves to the target:
  32 bits on the Cortex-M3 the source is written for (and on every ILP32 target),
  64 bits on LP64 hosts. The width is the type parameter \<open>'l\<close>. A shift by the width
  or more is undefined in C; it makes \<^verbatim>\<open>1L << q\<close> zero in the model and the division
  by it \<open>None\<close>.
\<close>

definition lw_math_fix_2_int :: "'l::len itself \<Rightarrow> fix_t \<Rightarrow> uint32_t \<Rightarrow> int32_t option" where
  "lw_math_fix_2_int long f q =
    (let one_shl_q = (push_bit (unat q) 1 :: 'l word)
     in if one_shl_q = 0 then None
        else if 0 \<le>s f then Some (ucast (c_sdiv (scast f) one_shl_q))
        else Some (ucast (c_sdiv (scast f - one_shl_q + 1) one_shl_q)))"

definition lw_math_fix_fract_part :: "'l::len itself \<Rightarrow> fix_t \<Rightarrow> uint32_t \<Rightarrow> fix_t" where
  "lw_math_fix_fract_part long f q =
    ucast ((scast f :: 'l word) AND ((push_bit (unat q) 1 :: 'l word) - 1))"

text \<open>
  The macros \<^verbatim>\<open>FCONV\<close> and \<^verbatim>\<open>FDIVG\<close> of \<^verbatim>\<open>lw_math.h\<close> on \<^verbatim>\<open>fix_t\<close> operands, the
  formats being fractional-bit counts. \<^verbatim>\<open>>>\<close> on a negative value is the arithmetic
  shift. Undefined in C, and \<open>None\<close> in the model: a shift by 32 or more, a division by
  zero, and the division of the smallest \<^verbatim>\<open>int32_t\<close> by -1, whose quotient \<open>2 ^ 31\<close> is
  not representable (the target traps on it). A left shift whose result does not fit
  32 bits is undefined in C as well; in the model it wraps, and the theorem about
  \<^verbatim>\<open>FDIVG\<close> below is stated for shifts that fit.
\<close>

definition FCONV :: "fix_t \<Rightarrow> nat \<Rightarrow> nat \<Rightarrow> fix_t option" where
  "FCONV x q1 q2 =
    (if q2 > q1 then (if q2 - q1 < 32 then Some (push_bit (q2 - q1) x) else None)
     else (if q1 - q2 < 32 then Some (signed_drop_bit (q1 - q2) x) else None))"

definition FDIVG :: "fix_t \<Rightarrow> fix_t \<Rightarrow> nat \<Rightarrow> nat \<Rightarrow> nat \<Rightarrow> fix_t option" where
  "FDIVG x y q1 q2 q3 =
    (case FCONV x q1 (q2 + q3) of
       None \<Rightarrow> None
     | Some n \<Rightarrow>
        if y = 0 \<or> (n = - 2147483648 \<and> y = - 1) then None else Some (c_sdiv n y))"

section \<open>What the specification says, for comparison\<close>

text \<open>
  The specification's square root: iterate \<open>next = (guess + input / guess) / 2\<close> with
  truncating division, stop when \<open>next = guess\<close> or after the given number of
  iterations, and return the last \<open>next\<close>.
\<close>

fun spec_newton :: "nat \<Rightarrow> int \<Rightarrow> int \<Rightarrow> int" where
  "spec_newton 0 input guess = guess"
| "spec_newton (Suc k) input guess =
    (let next = (guess + input sdiv guess) sdiv 2
     in if next = guess then next else spec_newton k input next)"

definition spec_sqrt :: "int \<Rightarrow> int" where
  "spec_sqrt input =
    (if input \<le> 0 then 0
     else spec_newton 6 input (if input \<le> 2097152 then 128 else 8192))"

text \<open>
  The specification's cross-format divide: both operands converted to the target
  format \<open>q3\<close>, then the plain division.
\<close>

definition spec_FDIVG :: "fix_t \<Rightarrow> fix_t \<Rightarrow> nat \<Rightarrow> nat \<Rightarrow> nat \<Rightarrow> fix_t option" where
  "spec_FDIVG x y q1 q2 q3 =
    (case (FCONV x q1 q3, FCONV y q2 q3) of
       (Some n, Some m) \<Rightarrow>
         if m = 0 \<or> (n = - 2147483648 \<and> m = - 1) then None else Some (c_sdiv n m)
     | _ \<Rightarrow> None)"

text \<open>The saturation rule of the Clarke and Park transforms on the integers: clamp to 16 bits, then move -32768 to -32767.\<close>

definition spec_saturate :: "int \<Rightarrow> int" where
  "spec_saturate w =
    (let h = (if w > 32767 then 32767 else if w < - 32768 then - 32768 else w)
     in if h = - 32768 then - 32767 else h)"

text \<open>A narrowing cast to \<^verbatim>\<open>int16_t\<close> on the integers: two's-complement wrap modulo \<open>2 ^ 16\<close>.\<close>

definition spec_wrap16 :: "int \<Rightarrow> int" where
  "spec_wrap16 k = (k + 32768) mod 65536 - 32768"

section \<open>The Newton iteration on the integers\<close>

text \<open>
  One step of the iteration on non-negative integers, where C's division is \<open>div\<close>, and
  a fixed number of steps taken without the convergence test. The proofs relate both the
  loop of \<^verbatim>\<open>lw_math_sqrt\<close> and \<open>spec_newton\<close> to them.
\<close>

definition newton_step :: "int \<Rightarrow> int \<Rightarrow> int" where
  "newton_step n r = (r + n div r) div 2"

fun newton_iter :: "nat \<Rightarrow> int \<Rightarrow> int \<Rightarrow> int" where
  "newton_iter 0 n r = r"
| "newton_iter (Suc k) n r = newton_iter k n (newton_step n r)"

section \<open>Word arithmetic used by the proofs\<close>

lemma sin_cos_table_length: "length sin_cos_table = 256"
  by (simp add: sin_cos_table_def)

lemma sin_cos_table_range: "list_all (\<lambda>x. 0 \<le> sint x \<and> sint x \<le> 32766) sin_cos_table"
  by (simp add: sin_cos_table_def)

lemma table_read_byte: "table_read (unat (i :: uint8_t)) = Some (sin_cos_table ! unat i)"
  using unsigned_less [of i, where ?'a = nat]
  by (simp add: table_read_def sin_cos_table_length)

lemma and_exp_cases: "(x :: 'a::len word) AND 2 ^ n = (if bit x n then 2 ^ n else 0)"
  by (rule bit_eqI) (auto simp: bit_simps)

lemma and_0x300_cases:
  fixes x :: uint32_t
  shows "x AND 0x300 = 0 \<or> x AND 0x300 = 0x100 \<or> x AND 0x300 = 0x200 \<or> x AND 0x300 = 0x300"
proof -
  have split: "x AND 0x300 = (x AND 2 ^ 8) OR (x AND 2 ^ 9)"
    by (simp flip: bit.conj_disj_distrib)
  show ?thesis unfolding split and_exp_cases by simp
qed

lemma trig_selector_cases:
  "trig_selector angle = U180_270 \<or> trig_selector angle = U270_360 \<or>
   trig_selector angle = U0_90 \<or> trig_selector angle = U90_180"
  using and_0x300_cases [of "ucast (trig_uhindex angle)"]
  by (simp add: trig_selector_def SIN_MASK_def U0_90_def U90_180_def U180_270_def U270_360_def)


lemma sint16_range: "- 32768 \<le> sint (x :: 16 word)" "sint x \<le> 32767"
  using sint_ge [of x] sint_lt [of x] by simp_all

lemma sint32_range: "- 2147483648 \<le> sint (x :: 32 word)" "sint x \<le> 2147483647"
  using sint_ge [of x] sint_lt [of x] by simp_all

lemma sint_scast_16_32: "sint (scast (x :: 16 word) :: 32 word) = sint x"
  by (simp add: sint_up_scast is_up)

lemma sint_ucast_32_16: "sint (ucast (w :: 32 word) :: 16 word) = signed_take_bit 15 (sint w)"
proof -
  have "take_bit 16 (uint w) = take_bit 16 (sint w)"
    by (simp add: uint_sint)
  then show ?thesis
    by (simp add: signed_ucast_eq signed_take_bit_eq_iff_take_bit_eq)
qed

lemma stb31_id: "- 2147483648 \<le> k \<Longrightarrow> k \<le> 2147483647 \<Longrightarrow> signed_take_bit 31 k = (k :: int)"
  by (simp add: signed_take_bit_int_eq_self)

lemma stb15_id: "- 32768 \<le> k \<Longrightarrow> k \<le> 32767 \<Longrightarrow> signed_take_bit 15 k = (k :: int)"
  by (simp add: signed_take_bit_int_eq_self)

lemma sdiv_pos_divisor:
  fixes x y :: int
  assumes "0 < y"
  shows "x sdiv y = (if 0 \<le> x then x div y else - ((- x) div y))"
  using assms by (auto simp: signed_divide_int_def sgn_if)

lemma sdiv_pos_divisor_range:
  fixes x y :: int
  assumes "0 < y"
  shows "- \<bar>x\<bar> \<le> x sdiv y" "x sdiv y \<le> \<bar>x\<bar>"
  using sdiv_int_range [of x y] by simp_all

lemma sint_c_sdiv32:
  fixes x y :: "32 word"
  assumes "0 < sint y"
  shows "sint (c_sdiv x y) = sint x sdiv sint y"
proof -
  let ?k = "sint x sdiv sint y"
  have "?k \<le> 0" if "sint x < 0"
    using that assms by (simp add: sdiv_pos_divisor div_int_pos_iff)
  moreover have "- \<bar>sint x\<bar> \<le> ?k" "?k \<le> \<bar>sint x\<bar>"
    using sdiv_int_range [of "sint x" "sint y"] by simp_all
  ultimately have "- 2147483648 \<le> ?k" "?k \<le> 2147483647"
    using sint32_range [of x] by linarith+
  then show ?thesis
    by (simp add: c_sdiv_def sint_sbintrunc' stb31_id)
qed

lemma neg_entry_sint:
  assumes "0 \<le> sint x" "sint x \<le> 32766"
  shows "sint (neg_entry x) = - sint x"
  using assms
  by (simp add: neg_entry_def sint_ucast_32_16 sint_word_ariths sint_scast_16_32 stb31_id stb15_id)


lemma table_entry_range:
  "0 \<le> sint (sin_cos_table ! unat (i :: uint8_t)) \<and> sint (sin_cos_table ! unat i) \<le> 32766"
proof -
  have "unat i < length sin_cos_table"
    using unsigned_less [of i, where ?'a = nat] by (simp add: sin_cos_table_length)
  then show ?thesis
    using sin_cos_table_range by (simp add: list_all_length)
qed

lemma lw_math_trig_functions_Some: "lw_math_trig_functions angle = Some (trig_value angle)"
  using trig_selector_cases [of angle]
  by (auto simp: lw_math_trig_functions_def trig_value_def table_read_byte Let_def)

lemma trig_value_range:
  "- 32766 \<le> sint (cos_C (trig_value angle))" "sint (cos_C (trig_value angle)) \<le> 32766"
  "- 32766 \<le> sint (sin_C (trig_value angle))" "sint (sin_C (trig_value angle)) \<le> 32766"
  using table_entry_range [of "trig_index angle"] table_entry_range [of "trig_mirror angle"]
  by (auto simp: trig_value_def Let_def neg_entry_sint)

lemma sint_ucast_16_32: "sint (ucast (u :: 16 word) :: 32 word) = uint u"
proof -
  have "0 \<le> uint u" "uint u < 65536"
    using uint_lt2p [of u] by simp_all
  then have "signed_take_bit 31 (uint u) = uint u"
    by (intro stb31_id) linarith+
  then show ?thesis
    by (simp add: signed_ucast_eq)
qed

lemma trig_uhindex_uint:
  "uint (trig_uhindex angle) = uint (ucast ((32768 :: int32_t) + scast angle) :: uint16_t) div 64"
proof -
  define u where "u = (ucast ((32768 :: int32_t) + scast angle) :: uint16_t)"
  have u: "0 \<le> uint u" "uint u < 65536"
    using uint_lt2p [of u] by simp_all
  then have k: "0 \<le> uint u div 64" "uint u div 64 < 65536"
    by (simp_all add: pos_imp_zdiv_nonneg_iff)
  have divisor: "uint (64 :: uint16_t) = 64"
    by simp
  have quot: "uint u sdiv 64 = uint u div 64"
    using u by (simp add: sdiv_pos_divisor)
  have "c_sdiv (ucast u :: int32_t) (ucast (64 :: uint16_t)) = word_of_int (uint u div 64)"
    unfolding c_sdiv_def sint_ucast_16_32 divisor quot ..
  then have "trig_uhindex angle = ucast (word_of_int (uint u div 64) :: int32_t)"
    unfolding trig_uhindex_def Let_def u_def by (rule arg_cong)
  then have "uint (trig_uhindex angle) = take_bit 16 (take_bit 32 (uint u div 64))"
    by (simp only: unsigned_ucast_eq uint_word_of_int take_bit_eq_mod len_bit0 len_num1 mult_2 one_add_one numeral_Bit0 [symmetric] )
  also have "\<dots> = uint u div 64"
    using k by (simp add: take_bit_int_eq_self)
  finally show ?thesis
    by (simp only: u_def)
qed

lemma trig_uhindex_bound: "uint (trig_uhindex angle) < 1024"
  using uint_lt2p [of "ucast ((32768 :: int32_t) + scast angle) :: uint16_t"]
  by (simp add: trig_uhindex_uint)

lemma table_index_in_range: "unat (i :: uint8_t) < length sin_cos_table"
  using unsigned_less [of i, where ?'a = nat] by (simp add: sin_cos_table_length)

lemma trig_value_from_table:
  "cos_C (trig_value angle) \<in> set sin_cos_table \<union> neg_entry ` set sin_cos_table"
  "sin_C (trig_value angle) \<in> set sin_cos_table \<union> neg_entry ` set sin_cos_table"
  using nth_mem [OF table_index_in_range [of "trig_index angle"]]
    nth_mem [OF table_index_in_range [of "trig_mirror angle"]]
  by (auto simp: trig_value_def Let_def)

lemmas trig_unfold =
  lw_math_trig_functions_def trig_selector_def trig_uhindex_def trig_index_def trig_mirror_def
  c_sdiv_def table_read_def sin_cos_table_def SIN_MASK_def U0_90_def U90_180_def U180_270_def
  U270_360_def neg_entry_def

section \<open>The trigonometric evaluator: range, canonical angles, dispatch\<close>

text \<open>
  Claim C4. For every 16-bit angle, \<^verbatim>\<open>lw_math_trig_functions\<close> returns a pair whose
  cosine and sine both lie in \<open>[-32766, 32766]\<close>: every table entry is between 0 and
  \<open>0x7FFE\<close>, and each output is a table entry or the negation of one. In particular
  neither field is ever \<open>-32768\<close>.
\<close>

theorem trig_amplitude_range:
  "\<exists>r. lw_math_trig_functions angle = Some r \<and>
     - 32766 \<le> sint (cos_C r) \<and> sint (cos_C r) \<le> 32766 \<and>
     - 32766 \<le> sint (sin_C r) \<and> sint (sin_C r) \<le> 32766 \<and>
     cos_C r \<noteq> - 32768 \<and> sin_C r \<noteq> - 32768 \<and>
     cos_C r \<in> set sin_cos_table \<union> neg_entry ` set sin_cos_table \<and>
     sin_C r \<in> set sin_cos_table \<union> neg_entry ` set sin_cos_table \<and>
     list_all (\<lambda>x. 0 \<le> sint x \<and> sint x \<le> 0x7FFE) sin_cos_table"
proof -
  let ?r = "trig_value angle"
  have "cos_C ?r \<noteq> - 32768" "sin_C ?r \<noteq> - 32768"
    using trig_value_range [of angle] by auto
  then show ?thesis
    using trig_value_range [of angle] trig_value_from_table [of angle] sin_cos_table_range
    by (intro exI [of _ ?r]) (simp add: lw_math_trig_functions_Some)
qed

text \<open>
  Claim C5. At the canonical angles: angle 0 gives cosine \<open>0x7FFE = 32766\<close> (the largest
  amplitude) and sine 0; angle 16384 (a quarter turn) gives cosine 0 and sine 32766; the
  angles -32768 and 32767 (half a turn) both give cosine -32766, the smallest amplitude
  the evaluator produces, and sine exactly 0.
\<close>

theorem trig_canonical_angles:
  "lw_math_trig_functions 0 = Some \<lparr>cos_C = 0x7FFE, sin_C = 0\<rparr> \<and>
   lw_math_trig_functions 16384 = Some \<lparr>cos_C = 0, sin_C = 0x7FFE\<rparr> \<and>
   lw_math_trig_functions (- 32768) = Some \<lparr>cos_C = - 0x7FFE, sin_C = 0\<rparr> \<and>
   lw_math_trig_functions 32767 = Some \<lparr>cos_C = - 0x7FFE, sin_C = 0\<rparr> \<and>
   sint (0x7FFE :: int16_t) = 32766 \<and> sint (- 0x7FFE :: int16_t) = - 32766"
  by (simp add: trig_unfold)

text \<open>
  Claim C6. For every 16-bit angle the index \<^verbatim>\<open>((uint16_t)(32768 + angle)) / 64\<close> is a
  10-bit value; masked with \<^verbatim>\<open>0x0300\<close> it is one of the four pairwise different case
  labels \<^verbatim>\<open>0x0200\<close>, \<^verbatim>\<open>0x0300\<close>, \<^verbatim>\<open>0x0000\<close>, \<^verbatim>\<open>0x0100\<close>, so one case of the switch
  runs and the default branch does not: the function returns an assigned pair. Both
  table indices are below the table's length, 256.
\<close>

theorem trig_dispatch_total:
  "uint (trig_uhindex angle) = uint (ucast ((32768 :: int32_t) + scast angle) :: uint16_t) div 64 \<and>
   uint (trig_uhindex angle) < 1024 \<and>
   trig_selector angle \<in> {U0_90, U90_180, U180_270, U270_360} \<and>
   [U0_90, U90_180, U180_270, U270_360] = [0x0200, 0x0300, 0x0000, 0x0100] \<and>
   distinct [U0_90, U90_180, U180_270, U270_360] \<and>
   lw_math_trig_functions angle \<noteq> None \<and>
   unat (trig_index angle) < length sin_cos_table \<and>
   unat (trig_mirror angle) < length sin_cos_table \<and>
   length sin_cos_table = 256"
proof -
  have "trig_selector angle \<in> {U0_90, U90_180, U180_270, U270_360}"
    using trig_selector_cases [of angle] by auto
  moreover have "[U0_90, U90_180, U180_270, U270_360] = [0x0200, 0x0300, 0x0000, 0x0100]"
    and "distinct [U0_90, U90_180, U180_270, U270_360]"
    by (simp_all add: U0_90_def U90_180_def U180_270_def U270_360_def)
  moreover have "lw_math_trig_functions angle \<noteq> None"
    by (simp add: lw_math_trig_functions_Some)
  ultimately show ?thesis
    using trig_uhindex_uint [of angle] trig_uhindex_bound [of angle]
      table_index_in_range [of "trig_index angle"] table_index_in_range [of "trig_mirror angle"]
      sin_cos_table_length
    by (intro conjI) assumption+
qed

section \<open>Clarke transform\<close>

lemma int16_min_iff: "(- 32768 :: int16_t) = h \<longleftrightarrow> sint h = - 32768"
proof -
  have "(- 32768 :: int16_t) = h \<longleftrightarrow> sint (- 32768 :: int16_t) = sint h"
    by (rule word_eq_iff_signed)
  then show ?thesis by auto
qed

lemma saturate_word:
  fixes w :: int32_t
  defines "h \<equiv> (if INT16_MAX <s w then ucast INT16_MAX
                  else if w <s - 32768 then (- 32768 :: int16_t) else ucast w)"
  shows "sint (if (- 32768 :: int16_t) = h then - 32767 else h) = spec_saturate (sint w)"
proof -
  have h: "sint h = (if sint w > 32767 then 32767 else if sint w < - 32768 then - 32768 else sint w)"
    by (auto simp: h_def INT16_MAX_def word_sless_alt sint_ucast_32_16 stb15_id)
  show ?thesis
    unfolding int16_min_iff h spec_saturate_def Let_def by (simp add: h)
qed

lemma sint_mult_16_16:
  fixes x y :: int16_t
  shows "sint ((scast x :: int32_t) * scast y) = sint x * sint y"
proof -
  have "\<bar>sint x\<bar> \<le> 32768" "\<bar>sint y\<bar> \<le> 32768"
    using sint16_range [of x] sint16_range [of y] by simp_all
  then have "\<bar>sint x * sint y\<bar> \<le> 32768 * 32768"
    unfolding abs_mult by (intro mult_mono) simp_all
  then show ?thesis
    by (simp add: sint_word_ariths sint_scast_16_32 stb31_id)
qed

lemma sint_divSQRT_3_mult:
  fixes x :: int16_t
  shows "sint (divSQRT_3 * scast x) = 18918 * sint x"
proof -
  have "- 2147483648 \<le> 18918 * sint x" "18918 * sint x \<le> 2147483647"
    using sint16_range [of x] by linarith+
  then show ?thesis
    by (simp add: divSQRT_3_def sint_word_ariths sint_scast_16_32 stb31_id)
qed

lemma clarke_wbeta:
  fixes x y :: int16_t
  shows "sint (c_sdiv (- (divSQRT_3 * scast x) - divSQRT_3 * scast y - divSQRT_3 * scast y) 32768)
    = (- (18918 * sint x + 2 * 18918 * sint y)) sdiv 32768"
proof -
  let ?p = "divSQRT_3 * scast x :: int32_t" and ?r = "divSQRT_3 * scast y :: int32_t"
  have r: "- 32768 \<le> sint x" "sint x \<le> 32767" "- 32768 \<le> sint y" "sint y \<le> 32767"
    using sint16_range [of x] sint16_range [of y] by simp_all
  have 1: "sint (- ?p) = - (18918 * sint x)"
    using r by (simp add: sint_word_minus sint_divSQRT_3_mult stb31_id)
  have 2: "sint (- ?p - ?r) = - (18918 * sint x) - 18918 * sint y"
    using r by (simp add: sint_word_diff 1 sint_divSQRT_3_mult stb31_id)
  have "sint (- ?p - ?r - ?r) = signed_take_bit (LENGTH(32) - 1) (sint (- ?p - ?r) - sint ?r)"
    by (rule sint_word_diff)
  also have "\<dots> = signed_take_bit 31 (- (18918 * sint x) - 18918 * sint y - 18918 * sint y)"
    unfolding 2 sint_divSQRT_3_mult by simp
  also have "\<dots> = - (18918 * sint x) - 18918 * sint y - 18918 * sint y"
    using r by (intro stb31_id) linarith+
  finally have 3: "sint (- ?p - ?r - ?r) = - (18918 * sint x) - 18918 * sint y - 18918 * sint y" .
  have "sint (c_sdiv (- ?p - ?r - ?r) 32768) = sint (- ?p - ?r - ?r) sdiv sint (32768 :: int32_t)"
    by (rule sint_c_sdiv32) simp
  also have "\<dots> = (- (18918 * sint x + 2 * 18918 * sint y)) sdiv 32768"
    unfolding 3 by (simp add: algebra_simps)
  finally show ?thesis .
qed

lemma clarke_fields:
  "alpha_C (lw_math_clarke input) = a_C input"
  "beta_C (lw_math_clarke input) =
    (let w = c_sdiv (- (divSQRT_3 * scast (a_C input)) - divSQRT_3 * scast (b_C input)
                 - divSQRT_3 * scast (b_C input)) 32768;
         h = (if INT16_MAX <s w then ucast INT16_MAX
              else if w <s - 32768 then (- 32768 :: int16_t) else ucast w)
     in if (- 32768 :: int16_t) = h then - 32767 else h)"
  by (simp_all add: lw_math_clarke_def Let_def)

lemma spec_saturate_range: "- 32767 \<le> spec_saturate w" "spec_saturate w \<le> 32767"
  by (simp_all add: spec_saturate_def Let_def)

text \<open>
  Claim C1. For every input \<open>(a, b)\<close>, \<^verbatim>\<open>lw_math_clarke\<close> returns \<open>alpha = a\<close> exactly and
  \<open>beta\<close> equal to \<open>-(0x49E6 * a + 2 * 0x49E6 * b)\<close> divided by 32768 with C's truncating
  division, clamped to the signed 16-bit range and moved from -32768 to -32767; no
  32-bit intermediate overflows. The returned \<open>beta\<close> is never -32768: it is at least
  -32767.
\<close>

theorem clarke_alpha_beta:
  "alpha_C (lw_math_clarke input) = a_C input \<and>
   sint (beta_C (lw_math_clarke input)) =
     spec_saturate ((- (0x49E6 * sint (a_C input) + 2 * 0x49E6 * sint (b_C input))) sdiv 32768) \<and>
   beta_C (lw_math_clarke input) \<noteq> - 32768 \<and>
   - 32767 \<le> sint (beta_C (lw_math_clarke input))"
proof -
  have beta: "sint (beta_C (lw_math_clarke input)) =
     spec_saturate ((- (18918 * sint (a_C input) + 2 * 18918 * sint (b_C input))) sdiv 32768)"
    unfolding clarke_fields Let_def saturate_word clarke_wbeta ..
  moreover have "- 32767 \<le> sint (beta_C (lw_math_clarke input))"
    unfolding beta by (rule spec_saturate_range)
  moreover from this have "beta_C (lw_math_clarke input) \<noteq> - 32768"
    by auto
  ultimately show ?thesis
    by (simp add: clarke_fields(1))
qed

section \<open>Park transform\<close>

lemma sint_mult_16_trig:
  fixes x c :: int16_t
  assumes "- 32766 \<le> sint c" "sint c \<le> 32766"
  shows "\<bar>sint x * sint c\<bar> \<le> 1073676288"
proof -
  have "\<bar>sint x\<bar> \<le> 32768" "\<bar>sint c\<bar> \<le> 32766"
    using sint16_range [of x] assms by simp_all
  then have "\<bar>sint x\<bar> * \<bar>sint c\<bar> \<le> 32768 * 32766"
    by (intro mult_mono) simp_all
  then show ?thesis
    by (simp add: abs_mult)
qed

lemma rotate_diff:
  fixes x y c s :: int16_t
  assumes "- 32766 \<le> sint c" "sint c \<le> 32766" "- 32766 \<le> sint s" "sint s \<le> 32766"
  shows "sint (c_sdiv ((scast x :: int32_t) * scast c - scast y * scast s) 32768)
    = (sint x * sint c - sint y * sint s) sdiv 32768"
proof -
  let ?p = "(scast x :: int32_t) * scast c" and ?r = "(scast y :: int32_t) * scast s"
  have b: "\<bar>sint x * sint c\<bar> \<le> 1073676288" "\<bar>sint y * sint s\<bar> \<le> 1073676288"
    using assms by (simp_all add: sint_mult_16_trig)
  have "sint (?p - ?r) = signed_take_bit (LENGTH(32) - 1) (sint ?p - sint ?r)"
    by (rule sint_word_diff)
  also have "\<dots> = signed_take_bit 31 (sint x * sint c - sint y * sint s)"
    unfolding sint_mult_16_16 by simp
  also have "\<dots> = sint x * sint c - sint y * sint s"
    using b by (intro stb31_id) linarith+
  finally have d: "sint (?p - ?r) = sint x * sint c - sint y * sint s" .
  have "sint (c_sdiv (?p - ?r) 32768) = sint (?p - ?r) sdiv sint (32768 :: int32_t)"
    by (rule sint_c_sdiv32) simp
  then show ?thesis
    unfolding d by simp
qed

lemma rotate_sum:
  fixes x y c s :: int16_t
  assumes "- 32766 \<le> sint c" "sint c \<le> 32766" "- 32766 \<le> sint s" "sint s \<le> 32766"
  shows "sint (c_sdiv ((scast x :: int32_t) * scast s + scast y * scast c) 32768)
    = (sint x * sint s + sint y * sint c) sdiv 32768"
proof -
  let ?p = "(scast x :: int32_t) * scast s" and ?r = "(scast y :: int32_t) * scast c"
  have b: "\<bar>sint x * sint s\<bar> \<le> 1073676288" "\<bar>sint y * sint c\<bar> \<le> 1073676288"
    using assms by (simp_all add: sint_mult_16_trig)
  have "sint (?p + ?r) = signed_take_bit (LENGTH(32) - 1) (sint ?p + sint ?r)"
    by (rule sint_word_add)
  also have "\<dots> = signed_take_bit 31 (sint x * sint s + sint y * sint c)"
    unfolding sint_mult_16_16 by simp
  also have "\<dots> = sint x * sint s + sint y * sint c"
    using b by (intro stb31_id) linarith+
  finally have d: "sint (?p + ?r) = sint x * sint s + sint y * sint c" .
  have "sint (c_sdiv (?p + ?r) 32768) = sint (?p + ?r) sdiv sint (32768 :: int32_t)"
    by (rule sint_c_sdiv32) simp
  then show ?thesis
    unfolding d by simp
qed

lemma park_Some:
  "lw_math_park input theta = Some
    \<lparr>q_C = (let w = c_sdiv ((scast (alpha_C input) :: int32_t) * scast (cos_C (trig_value theta))
                        - scast (beta_C input) * scast (sin_C (trig_value theta))) 32768;
               h = (if INT16_MAX <s w then ucast INT16_MAX
                    else if w <s - 32768 then (- 32768 :: int16_t) else ucast w)
           in if (- 32768 :: int16_t) = h then - 32767 else h),
     d_C = (let w = c_sdiv ((scast (alpha_C input) :: int32_t) * scast (sin_C (trig_value theta))
                        + scast (beta_C input) * scast (cos_C (trig_value theta))) 32768;
               h = (if INT16_MAX <s w then ucast INT16_MAX
                    else if w <s - 32768 then (- 32768 :: int16_t) else ucast w)
           in if (- 32768 :: int16_t) = h then - 32767 else h)\<rparr>"
  by (simp add: lw_math_park_def lw_math_trig_functions_Some Let_def)

text \<open>
  Claim C2. For every input \<open>(alpha, beta)\<close> and every 16-bit angle \<open>theta\<close>, with
  \<open>(cos, sin)\<close> the pair \<^verbatim>\<open>lw_math_trig_functions(theta)\<close> returns, \<^verbatim>\<open>lw_math_park\<close>
  returns \<open>q = (alpha * cos - beta * sin) / 32768\<close> and
  \<open>d = (alpha * sin + beta * cos) / 32768\<close>, the quotients being the exact integer ones
  (the 32-bit intermediates do not overflow, the division truncates), each saturated to
  the signed 16-bit range and moved from -32768 to -32767. Neither component is ever
  -32768.
\<close>

theorem park_q_d:
  "\<exists>t r. lw_math_trig_functions theta = Some t \<and> lw_math_park input theta = Some r \<and>
     sint (q_C r) = spec_saturate
       ((sint (alpha_C input) * sint (cos_C t) - sint (beta_C input) * sint (sin_C t)) sdiv 32768) \<and>
     sint (d_C r) = spec_saturate
       ((sint (alpha_C input) * sint (sin_C t) + sint (beta_C input) * sint (cos_C t)) sdiv 32768) \<and>
     q_C r \<noteq> - 32768 \<and> d_C r \<noteq> - 32768 \<and>
     - 32767 \<le> sint (q_C r) \<and> - 32767 \<le> sint (d_C r)"
proof -
  let ?t = "trig_value theta"
  note tr = trig_value_range [of theta]
  define Q where "Q = (let w = c_sdiv ((scast (alpha_C input) :: int32_t) * scast (cos_C ?t)
                        - scast (beta_C input) * scast (sin_C ?t)) 32768;
               h = (if INT16_MAX <s w then ucast INT16_MAX
                    else if w <s - 32768 then (- 32768 :: int16_t) else ucast w)
           in if (- 32768 :: int16_t) = h then - 32767 else h)"
  define D where "D = (let w = c_sdiv ((scast (alpha_C input) :: int32_t) * scast (sin_C ?t)
                        + scast (beta_C input) * scast (cos_C ?t)) 32768;
               h = (if INT16_MAX <s w then ucast INT16_MAX
                    else if w <s - 32768 then (- 32768 :: int16_t) else ucast w)
           in if (- 32768 :: int16_t) = h then - 32767 else h)"
  have r: "lw_math_park input theta = Some \<lparr>q_C = Q, d_C = D\<rparr>"
    unfolding Q_def D_def by (rule park_Some)
  have q: "sint Q = spec_saturate
       ((sint (alpha_C input) * sint (cos_C ?t) - sint (beta_C input) * sint (sin_C ?t)) sdiv 32768)"
    unfolding Q_def Let_def saturate_word rotate_diff [OF tr] ..
  have d: "sint D = spec_saturate
       ((sint (alpha_C input) * sint (sin_C ?t) + sint (beta_C input) * sint (cos_C ?t)) sdiv 32768)"
    unfolding D_def Let_def saturate_word rotate_sum [OF tr] ..
  have low: "- 32767 \<le> sint Q" "- 32767 \<le> sint D"
    unfolding q d by (rule spec_saturate_range)+
  then have "Q \<noteq> - 32768" "D \<noteq> - 32768"
    by auto
  then show ?thesis
    using r q d low
    by (intro exI [of _ ?t] exI [of _ "\<lparr>q_C = Q, d_C = D\<rparr>"])
      (simp add: lw_math_trig_functions_Some)
qed

section \<open>Inverse Park transform\<close>

lemma signed_take_bit_15_wrap: "signed_take_bit 15 k = spec_wrap16 k"
  by (simp add: signed_take_bit_eq_take_bit_shift take_bit_eq_mod spec_wrap16_def)

lemma rev_park_Some:
  "lw_math_rev_park input theta = Some
    \<lparr>alpha_C = ucast (c_sdiv ((scast (q_C input) :: int32_t) * scast (cos_C (trig_value theta))
                        + scast (d_C input) * scast (sin_C (trig_value theta))) 32768),
     beta_C = ucast (c_sdiv ((scast (d_C input) :: int32_t) * scast (cos_C (trig_value theta))
                        - scast (q_C input) * scast (sin_C (trig_value theta))) 32768)\<rparr>"
  by (simp add: lw_math_rev_park_def lw_math_trig_functions_Some Let_def)

text \<open>
  Claim C3. For every input \<open>(q, d)\<close> and every 16-bit angle \<open>theta\<close>, with \<open>(cos, sin)\<close>
  the pair \<^verbatim>\<open>lw_math_trig_functions(theta)\<close> returns, \<^verbatim>\<open>lw_math_rev_park\<close> returns
  \<open>alpha = (q * cos + d * sin) / 32768\<close> and \<open>beta = (d * cos - q * sin) / 32768\<close> with
  truncating division, each narrowed to 16 bits by wrapping modulo \<open>2 ^ 16\<close>: there is
  no clamp and no move away from -32768. At \<open>theta = 8192\<close> the inputs
  \<open>q = d = 23243\<close> have quotient 32768 and return \<open>alpha = -32768\<close>, and
  \<open>q = d = 32767\<close> have quotient 46195 and return \<open>alpha = 46195 - 65536 = -19341\<close>.
\<close>

theorem rev_park_narrowing_cast:
  "(\<exists>t r. lw_math_trig_functions theta = Some t \<and> lw_math_rev_park input theta = Some r \<and>
     sint (alpha_C r) = spec_wrap16
       ((sint (q_C input) * sint (cos_C t) + sint (d_C input) * sint (sin_C t)) sdiv 32768) \<and>
     sint (beta_C r) = spec_wrap16
       ((sint (d_C input) * sint (cos_C t) - sint (q_C input) * sint (sin_C t)) sdiv 32768)) \<and>
   lw_math_trig_functions 8192 = Some \<lparr>cos_C = 23027, sin_C = 23170\<rparr> \<and>
   (23243 * 23027 + 23243 * 23170) sdiv 32768 = (32768 :: int) \<and>
   lw_math_rev_park \<lparr>q_C = 23243, d_C = 23243\<rparr> 8192 = Some \<lparr>alpha_C = - 32768, beta_C = - 101\<rparr> \<and>
   (32767 * 23027 + 32767 * 23170) sdiv 32768 = (46195 :: int) \<and>
   lw_math_rev_park \<lparr>q_C = 32767, d_C = 32767\<rparr> 8192 = Some \<lparr>alpha_C = - 19341, beta_C = - 142\<rparr>"
proof -
  let ?t = "trig_value theta"
  note tr = trig_value_range [of theta]
  define A where "A = (ucast (c_sdiv ((scast (q_C input) :: int32_t) * scast (cos_C ?t)
                        + scast (d_C input) * scast (sin_C ?t)) 32768) :: int16_t)"
  define B where "B = (ucast (c_sdiv ((scast (d_C input) :: int32_t) * scast (cos_C ?t)
                        - scast (q_C input) * scast (sin_C ?t)) 32768) :: int16_t)"
  have r: "lw_math_rev_park input theta = Some \<lparr>alpha_C = A, beta_C = B\<rparr>"
    unfolding A_def B_def by (rule rev_park_Some)
  have a: "sint A = spec_wrap16
       ((sint (q_C input) * sint (cos_C ?t) + sint (d_C input) * sint (sin_C ?t)) sdiv 32768)"
    unfolding A_def sint_ucast_32_16 rotate_sum [OF tr(3,4,1,2)] signed_take_bit_15_wrap ..
  have b: "sint B = spec_wrap16
       ((sint (d_C input) * sint (cos_C ?t) - sint (q_C input) * sint (sin_C ?t)) sdiv 32768)"
    unfolding B_def sint_ucast_32_16 rotate_diff [OF tr] signed_take_bit_15_wrap ..
  have general: "\<exists>t r. lw_math_trig_functions theta = Some t \<and> lw_math_rev_park input theta = Some r \<and>
     sint (alpha_C r) = spec_wrap16
       ((sint (q_C input) * sint (cos_C t) + sint (d_C input) * sint (sin_C t)) sdiv 32768) \<and>
     sint (beta_C r) = spec_wrap16
       ((sint (d_C input) * sint (cos_C t) - sint (q_C input) * sint (sin_C t)) sdiv 32768)"
    using r a b
    by (intro exI [of _ ?t] exI [of _ "\<lparr>alpha_C = A, beta_C = B\<rparr>"])
      (simp add: lw_math_trig_functions_Some)
  have t: "lw_math_trig_functions 8192 = Some \<lparr>cos_C = 23027, sin_C = 23170\<rparr>"
    by (simp add: trig_unfold)
  have "lw_math_rev_park \<lparr>q_C = 23243, d_C = 23243\<rparr> 8192 = Some \<lparr>alpha_C = - 32768, beta_C = - 101\<rparr>"
    and "lw_math_rev_park \<lparr>q_C = 32767, d_C = 32767\<rparr> 8192 = Some \<lparr>alpha_C = - 19341, beta_C = - 142\<rparr>"
    by (simp_all add: lw_math_rev_park_def t c_sdiv_def)
  with general t show ?thesis
    by simp
qed

section \<open>The cross-format divide\<close>

lemma sint_push_bit32: "sint (push_bit k (x :: 32 word)) = signed_take_bit 31 (sint x * 2 ^ k)"
proof -
  have "push_bit k x = word_of_int (sint x * 2 ^ k)"
    by (simp add: push_bit_eq_mult)
  then show ?thesis
    by (simp only: sint_sbintrunc') simp
qed

text \<open>
  Claim C9 says that \<^verbatim>\<open>FDIVG(a, b, q1, q2, q3)\<close> equals
  \<^verbatim>\<open>FCONV(a, q1, q3) / FCONV(b, q2, q3)\<close>. It does not: for \<open>a = 6\<close>, \<open>b = 2\<close> in format 0
  and target format 1 the converted operands are 12 and 4, whose quotient is 3, while
  the macro returns 6 (the quotient 3 written in format 1).
\<close>

theorem FDIVG_not_normalized:
  "FCONV 6 0 1 = Some 12 \<and> FCONV 2 0 1 = Some 4 \<and> (4 :: fix_t) \<noteq> 0 \<and>
   FDIVG 6 2 0 0 1 = Some 6 \<and> spec_FDIVG 6 2 0 0 1 = Some 3 \<and>
   FDIVG 6 2 0 0 1 \<noteq> spec_FDIVG 6 2 0 0 1"
  by (simp add: FDIVG_def spec_FDIVG_def FCONV_def c_sdiv_def)

lemma sint_c_sdiv32_representable:
  fixes n y :: "32 word"
  assumes "y \<noteq> 0" and "\<not> (n = - 2147483648 \<and> y = - 1)"
  shows "sint (c_sdiv n y) = sint n sdiv sint y"
proof -
  let ?k = "sint n sdiv sint y"
  have range: "- \<bar>sint n\<bar> \<le> ?k" "?k \<le> \<bar>sint n\<bar>"
    using sdiv_int_range [of "sint n" "sint y"] by simp_all
  have y0: "sint y \<noteq> 0"
    using assms(1) by (simp add: signed_eq_0_iff)
  have "?k \<le> 2147483647"
  proof (cases "sint n = - 2147483648")
    case False
    then show ?thesis
      using range sint32_range [of n] by linarith
  next
    case True
    have "sint n = sint (- 2147483648 :: 32 word)"
      using True by simp
    then have n: "n = - 2147483648"
      by (rule signed_word_eqI)
    show ?thesis
    proof (cases "0 < sint y")
      case True
      have "?k \<le> 0"
        using True \<open>sint n = - 2147483648\<close> by (simp add: sdiv_pos_divisor div_int_pos_iff)
      then show ?thesis by linarith
    next
      case False
      have "sint y \<noteq> - 1"
      proof
        assume "sint y = - 1"
        then have "sint y = sint (- 1 :: 32 word)"
          by simp
        then have "y = - 1"
          by (rule signed_word_eqI)
        with n assms(2) show False by simp
      qed
      with False y0 have "2 \<le> - sint y"
        by linarith
      then have "2147483648 div (- sint y) \<le> 2147483648 div 2"
        by (intro zdiv_mono2) simp_all
      moreover have "?k = 2147483648 div (- sint y)"
        using False y0 True by (simp add: signed_divide_int_def sgn_if)
      ultimately show ?thesis
        by simp
    qed
  qed
  moreover have "- 2147483648 \<le> ?k"
    using range sint32_range [of n] by linarith
  ultimately show ?thesis
    by (simp add: c_sdiv_def sint_sbintrunc' stb31_id)
qed

lemma FDIVG_undefined_quotient:
  "FDIVG (- 2147483648) (- 1) 0 0 0 = None \<and> FDIVG 6 0 0 0 1 = None"
  by (simp add: FDIVG_def FCONV_def)

text \<open>
  Claim C9 as amended. \<^verbatim>\<open>FDIVG(a, b, q1, q2, q3)\<close> converts the dividend only: \<open>a\<close> is
  taken from format \<open>q1\<close> to format \<open>q2 + q3\<close> and divided, truncating, by \<open>b\<close> as it is
  given: the result is \<open>(a * 2 ^ (q2 + q3 - q1)) / b\<close> if \<open>q2 + q3 > q1\<close> and
  \<open>\<lfloor>a / 2 ^ (q1 - (q2 + q3))\<rfloor> / b\<close> otherwise. This holds for every \<open>a\<close>, every nonzero
  \<open>b\<close> and all formats whose shift is below 32, provided the left shift fits 32 bits
  and the quotient is representable, that is, the converted dividend is not
  \<open>-2 ^ 31\<close> together with \<open>b = -1\<close>; outside these conditions the macro is undefined.
\<close>

theorem FDIVG_converts_dividend_only:
  assumes "y \<noteq> 0" and "q2 + q3 - q1 < 32" and "q1 - (q2 + q3) < 32"
    and "- 2147483648 \<le> sint x * 2 ^ (q2 + q3 - q1)"
    and "sint x * 2 ^ (q2 + q3 - q1) \<le> 2147483647"
    and "\<not> ((if q2 + q3 > q1 then sint x * 2 ^ (q2 + q3 - q1)
              else sint x div 2 ^ (q1 - (q2 + q3))) = - 2147483648 \<and> y = - 1)"
  shows "\<exists>n r. FCONV x q1 (q2 + q3) = Some n \<and> FDIVG x y q1 q2 q3 = Some r \<and>
    r = c_sdiv n y \<and>
    n = (if q2 + q3 > q1 then push_bit (q2 + q3 - q1) x else signed_drop_bit (q1 - (q2 + q3)) x) \<and>
    sint n = (if q2 + q3 > q1 then sint x * 2 ^ (q2 + q3 - q1)
              else sint x div 2 ^ (q1 - (q2 + q3))) \<and>
    sint r = sint n sdiv sint y"
proof -
  define n where
    "n = (if q2 + q3 > q1 then push_bit (q2 + q3 - q1) x else signed_drop_bit (q1 - (q2 + q3)) x)"
  have conv: "FCONV x q1 (q2 + q3) = Some n"
    using assms(2,3) by (simp add: FCONV_def n_def)
  have n: "sint n = (if q2 + q3 > q1 then sint x * 2 ^ (q2 + q3 - q1)
              else sint x div 2 ^ (q1 - (q2 + q3)))"
    using assms(4,5)
    by (simp add: n_def sint_push_bit32 stb31_id sint_signed_drop_bit_eq drop_bit_eq_div)
  have "n \<noteq> - 2147483648 \<or> y \<noteq> - 1"
    using assms(6) n by auto
  then have ok: "\<not> (n = - 2147483648 \<and> y = - 1)"
    by simp
  then have "FDIVG x y q1 q2 q3 = Some (c_sdiv n y)"
    using assms(1) by (simp add: FDIVG_def conv)
  moreover have "sint (c_sdiv n y) = sint n sdiv sint y"
    using assms(1) ok by (rule sint_c_sdiv32_representable)
  ultimately show ?thesis
    using conv n by (intro exI [of _ n] exI [of _ "c_sdiv n y"]) (simp add: n_def)
qed

theorem FDIVG_converts_dividend_only_witness:
  "(2 :: fix_t) \<noteq> 0 \<and> (0 :: nat) + 1 - 0 < 32 \<and> (0 :: nat) - (0 + 1) < 32 \<and>
   - 2147483648 \<le> sint (6 :: fix_t) * 2 ^ (0 + 1 - 0) \<and>
   sint (6 :: fix_t) * 2 ^ (0 + 1 - 0) \<le> 2147483647 \<and>
   sint (6 :: fix_t) * 2 ^ (0 + 1 - 0) \<noteq> - 2147483648 \<and>
   FCONV 6 0 (0 + 1) = Some 12 \<and> FDIVG 6 2 0 0 1 = Some 6 \<and> (6 :: fix_t) = c_sdiv 12 2 \<and>
   sint (6 :: fix_t) = sint (12 :: fix_t) sdiv sint (2 :: fix_t)"
  using FDIVG_converts_dividend_only [of 2 0 1 0 6]
  by (simp add: FCONV_def c_sdiv_def)

section \<open>Integer and fractional part of a fixed-point number\<close>

text \<open>
  Where \<^verbatim>\<open>f - (1L << q) + 1\<close> is representable in \<^verbatim>\<open>long\<close> the two functions split \<open>f\<close>
  into its floor and a remainder in \<open>[0, 2 ^ q)\<close>: for every \<open>f\<close> when \<^verbatim>\<open>long\<close> has 64
  bits (\<open>fix_parts_decompose_long64\<close>), and for \<open>f \<ge> -2 ^ 31 + 2 ^ q - 1\<close> when it has
  32 bits (\<open>fix_parts_decompose_long32\<close>).
\<close>

lemma floor_by_truncation:
  fixes F D :: int
  assumes "F < 0" "0 < D"
  shows "(F - D + 1) sdiv D = F div D"
proof -
  define k where "k = F div D"
  define m where "m = F mod D"
  have F: "F = D * k + m" and m: "0 \<le> m" "m < D"
    using assms(2) by (simp_all add: k_def m_def)
  have "- (F - D + 1) = D * (- k) + (D - 1 - m)"
    by (simp add: F algebra_simps)
  then have "(- (F - D + 1)) div D = - k"
    using m by (intro int_div_pos_eq [where r = "D - 1 - m"]) simp_all
  moreover have "F - D + 1 \<le> 0"
    using assms by simp
  ultimately show ?thesis
    using assms(2) by (cases "F - D + 1 = 0") (simp_all add: sdiv_pos_divisor k_def)
qed

lemma sint_exp_long:
  assumes "n < LENGTH('l::len) - 1"
  shows "sint (push_bit n 1 :: 'l word) = 2 ^ n"
proof -
  have "(2 :: int) ^ n < 2 ^ (LENGTH('l) - 1)"
    using assms by (intro power_strict_increasing) simp_all
  moreover have "- (2 ^ (LENGTH('l) - 1)) \<le> (2 :: int) ^ n"
    by (rule order_trans [of _ 0]) simp_all
  ultimately have "signed_take_bit (LENGTH('l) - 1) ((2 :: int) ^ n) = 2 ^ n"
    by (simp add: signed_take_bit_int_eq_self)
  moreover have "(push_bit n 1 :: 'l word) = word_of_int (2 ^ n)"
    by (simp add: push_bit_eq_mult)
  ultimately show ?thesis
    by (simp only: sint_sbintrunc')
qed

lemma sint_scast_fix_long:
  assumes "32 \<le> LENGTH('l::len)"
  shows "sint (scast (f :: fix_t) :: 'l word) = sint f"
  using assms by (simp add: sint_up_scast is_up)

lemma sint_c_sdiv_long:
  fixes x y :: "'l::len word"
  assumes "0 < sint y"
  shows "sint (c_sdiv x y) = sint x sdiv sint y"
proof -
  let ?k = "sint x sdiv sint y"
  have "?k \<le> 0" if "sint x < 0"
    using that assms by (simp add: sdiv_pos_divisor div_int_pos_iff)
  moreover have "- \<bar>sint x\<bar> \<le> ?k" "?k \<le> \<bar>sint x\<bar>"
    using sdiv_int_range [of "sint x" "sint y"] by simp_all
  ultimately have "- (2 ^ (LENGTH('l) - 1)) \<le> ?k" "?k < 2 ^ (LENGTH('l) - 1)"
    using sint_ge [of x] sint_lt [of x] by linarith+
  then show ?thesis
    by (simp add: c_sdiv_def sint_sbintrunc' signed_take_bit_int_eq_self)
qed

lemma sint_ucast_long_32:
  assumes "32 \<le> LENGTH('l::len)"
  shows "sint (ucast (w :: 'l word) :: 32 word) = signed_take_bit 31 (sint w)"
proof -
  have "take_bit 32 (uint w) = take_bit 32 (sint w)"
    using assms by (simp add: uint_sint min_def)
  then show ?thesis
    by (simp add: signed_ucast_eq signed_take_bit_eq_iff_take_bit_eq)
qed


lemma fract_part_value:
  assumes "32 \<le> LENGTH('l::len)" "unat q \<le> 30"
  shows "sint (lw_math_fix_fract_part TYPE('l) f q) = sint f mod 2 ^ unat q"
proof -
  let ?Q = "unat q"
  have "(push_bit ?Q 1 :: 'l word) - 1 = mask ?Q"
    by (simp add: mask_eq_exp_minus_1 push_bit_eq_mult)
  then have "lw_math_fix_fract_part TYPE('l) f q = ucast (take_bit ?Q (scast f :: 'l word))"
    by (simp add: lw_math_fix_fract_part_def take_bit_eq_mask)
  also have "\<dots> = take_bit ?Q f"
    using assms by (intro bit_word_eqI) (auto simp: bit_simps)
  finally have eq: "lw_math_fix_fract_part TYPE('l) f q = take_bit ?Q f" .
  have "uint (take_bit ?Q f) = take_bit ?Q (uint f)"
    by (rule unsigned_take_bit_eq)
  also have "uint f = take_bit LENGTH(32) (sint f)"
    by (rule uint_sint)
  also have "take_bit ?Q (take_bit LENGTH(32) (sint f)) = take_bit ?Q (sint f)"
    using assms(2) by (simp add: min_def)
  finally have u: "uint (take_bit ?Q f) = take_bit ?Q (sint f)" .
  have "take_bit ?Q (sint f) < 2 ^ ?Q" "0 \<le> take_bit ?Q (sint f)"
    by simp_all
  moreover have "(2 :: int) ^ ?Q \<le> 2 ^ 30"
    using assms(2) by (intro power_increasing) simp_all
  then have "(2 :: int) ^ ?Q \<le> 1073741824"
    by simp
  ultimately have "signed_take_bit 31 (take_bit ?Q (sint f)) = take_bit ?Q (sint f)"
    by (intro stb31_id) linarith+
  then have "sint (take_bit ?Q f) = take_bit ?Q (sint f)"
    by (simp add: sint_uint u)
  then show ?thesis
    by (simp add: eq take_bit_eq_mod)
qed

lemma div_abs_range:
  fixes F D :: int
  assumes "1 \<le> D"
  shows "- \<bar>F\<bar> \<le> F div D" "F div D \<le> \<bar>F\<bar>"
proof -
  have "0 \<le> F div D \<and> F div D \<le> F" if "0 \<le> F"
    using that assms zdiv_mono2 [of F 1 D] by (simp add: pos_imp_zdiv_nonneg_iff)
  moreover have "F \<le> F div D \<and> F div D < 0" if "F < 0"
    using that assms zdiv_mono2_neg [of F 1 D] by (simp add: pos_imp_zdiv_neg_iff)
  ultimately show "- \<bar>F\<bar> \<le> F div D" "F div D \<le> \<bar>F\<bar>"
    by (cases "0 \<le> F"; simp)+
qed

lemma fix_2_int_value:
  assumes "32 \<le> LENGTH('l::len)" and "unat q \<le> 30"
    and "- (2 ^ (LENGTH('l) - 1)) \<le> sint f - 2 ^ unat q + 1"
  shows "\<exists>i. lw_math_fix_2_int TYPE('l) f q = Some i \<and> sint i = sint f div 2 ^ unat q"
proof -
  let ?Q = "unat q" and ?F = "sint f"
  define one :: "'l word" where "one = push_bit ?Q 1"
  have Ql: "?Q < LENGTH('l) - 1"
    using assms(1,2) by simp
  have one: "sint one = 2 ^ ?Q"
    unfolding one_def by (rule sint_exp_long [OF Ql])
  then have one_nz: "one \<noteq> 0"
    by auto
  have one_pos: "0 < sint one"
    by (simp add: one)
  have F: "sint (scast f :: 'l word) = ?F"
    using assms(1) by (rule sint_scast_fix_long)
  have "- \<bar>?F\<bar> \<le> ?F div 2 ^ ?Q" "?F div 2 ^ ?Q \<le> \<bar>?F\<bar>"
    by (rule div_abs_range, simp)+
  moreover have "?F div 2 ^ ?Q < 0" if "?F < 0"
    using that by (simp add: pos_imp_zdiv_neg_iff)
  ultimately have "signed_take_bit 31 (?F div 2 ^ ?Q) = ?F div 2 ^ ?Q"
    using sint32_range [of f] by (intro stb31_id) linarith+
  then have narrow: "sint (ucast w :: int32_t) = ?F div 2 ^ ?Q"
    if "sint w = ?F div 2 ^ ?Q" for w :: "'l word"
    using that by (simp add: sint_ucast_long_32 [OF assms(1)])
  have unfolded: "lw_math_fix_2_int TYPE('l) f q =
      (if one = 0 then None
       else if 0 \<le>s f then Some (ucast (c_sdiv (scast f) one))
       else Some (ucast (c_sdiv (scast f - one + 1) one)))"
    unfolding lw_math_fix_2_int_def Let_def one_def ..
  show ?thesis
  proof (cases "0 \<le>s f")
    case True
    then have nonneg: "0 \<le> ?F"
      by (simp add: word_sle_eq)
    have "sint (c_sdiv (scast f) one) = ?F sdiv 2 ^ ?Q"
      by (simp add: sint_c_sdiv_long [OF one_pos] F one)
    also have "\<dots> = ?F div 2 ^ ?Q"
      using nonneg by (simp add: sdiv_pos_divisor)
    finally have "sint (ucast (c_sdiv (scast f) one) :: int32_t) = ?F div 2 ^ ?Q"
      by (rule narrow)
    then show ?thesis
      using True one_nz by (simp add: unfolded)
  next
    case False
    then have neg: "?F < 0"
      by (simp add: word_sle_eq)
    define x :: "'l word" where "x = scast f - one + 1"
    have "one = word_of_int (2 ^ ?Q)"
      by (simp add: one_def push_bit_eq_mult)
    then have "x = word_of_int (?F - 2 ^ ?Q + 1)"
      by (simp add: x_def)
    then have "sint x = signed_take_bit (LENGTH('l) - 1) (?F - 2 ^ ?Q + 1)"
      by (simp only: sint_sbintrunc')
    also have "\<dots> = ?F - 2 ^ ?Q + 1"
    proof (rule signed_take_bit_int_eq_self [OF assms(3)])
      have "(1 :: int) \<le> 2 ^ ?Q"
        by simp
      then have "?F - 2 ^ ?Q + 1 \<le> 0"
        using neg by linarith
      also have "(0 :: int) < 2 ^ (LENGTH('l) - 1)"
        by simp
      finally show "?F - 2 ^ ?Q + 1 < 2 ^ (LENGTH('l) - 1)" .
    qed
    finally have x: "sint x = ?F - 2 ^ ?Q + 1" .
    have "sint (c_sdiv x one) = (?F - 2 ^ ?Q + 1) sdiv 2 ^ ?Q"
      by (simp add: sint_c_sdiv_long [OF one_pos] x one)
    also have "\<dots> = ?F div 2 ^ ?Q"
      using neg by (intro floor_by_truncation) simp_all
    finally have "sint (ucast (c_sdiv x one) :: int32_t) = ?F div 2 ^ ?Q"
      by (rule narrow)
    then show ?thesis
      using False one_nz by (simp add: unfolded x_def)
  qed
qed

lemma fix_parts_decompose:
  assumes "32 \<le> LENGTH('l::len)" and "unat q \<le> 30"
    and "- (2 ^ (LENGTH('l) - 1)) \<le> sint f - 2 ^ unat q + 1"
  shows "\<exists>i. lw_math_fix_2_int TYPE('l) f q = Some i \<and>
    sint i * 2 ^ unat q + sint (lw_math_fix_fract_part TYPE('l) f q) = sint f \<and>
    0 \<le> sint (lw_math_fix_fract_part TYPE('l) f q) \<and>
    sint (lw_math_fix_fract_part TYPE('l) f q) < 2 ^ unat q \<and>
    sint i = sint f div 2 ^ unat q"
proof -
  let ?D = "(2 :: int) ^ unat q"
  obtain i where i: "lw_math_fix_2_int TYPE('l) f q = Some i" "sint i = sint f div ?D"
    using fix_2_int_value [OF assms] by blast
  have fract: "sint (lw_math_fix_fract_part TYPE('l) f q) = sint f mod ?D"
    using assms(1,2) by (rule fract_part_value)
  have "sint f div ?D * ?D + sint f mod ?D = sint f"
    by (rule div_mult_mod_eq)
  moreover have "0 \<le> sint f mod ?D" "sint f mod ?D < ?D"
    by simp_all
  ultimately show ?thesis
    unfolding fract using i by (intro exI [of _ i]) simp
qed

lemma fix_parts_decompose_long64:
  assumes "unat q \<le> 30"
  shows "\<exists>i. lw_math_fix_2_int TYPE(64) f q = Some i \<and>
    sint i * 2 ^ unat q + sint (lw_math_fix_fract_part TYPE(64) f q) = sint f \<and>
    0 \<le> sint (lw_math_fix_fract_part TYPE(64) f q) \<and>
    sint (lw_math_fix_fract_part TYPE(64) f q) < 2 ^ unat q \<and>
    sint i = sint f div 2 ^ unat q"
proof (rule fix_parts_decompose)
  have "(2 :: int) ^ unat q \<le> 2 ^ 30"
    using assms by (intro power_increasing) simp_all
  then show "- (2 ^ (LENGTH(64) - 1)) \<le> sint f - 2 ^ unat q + 1"
    using sint32_range [of f] by simp
qed (use assms in simp_all)

lemma fix_parts_decompose_long32:
  assumes "unat q \<le> 30" and "- 2147483648 + 2 ^ unat q - 1 \<le> sint f"
  shows "\<exists>i. lw_math_fix_2_int TYPE(32) f q = Some i \<and>
    sint i * 2 ^ unat q + sint (lw_math_fix_fract_part TYPE(32) f q) = sint f \<and>
    0 \<le> sint (lw_math_fix_fract_part TYPE(32) f q) \<and>
    sint (lw_math_fix_fract_part TYPE(32) f q) < 2 ^ unat q \<and>
    sint i = sint f div 2 ^ unat q"
  using assms by (intro fix_parts_decompose) simp_all

text \<open>
  Claim C10 asks that \<open>lw_math_fix_2_int(f, q) * 2 ^ q + lw_math_fix_fract_part(f, q) = f\<close>
  for every \<open>f\<close> and every \<open>q\<close> from 0 to 30. With a 32-bit \<^verbatim>\<open>long\<close> the negative
  branch computes \<^verbatim>\<open>f - (1L << q) + 1\<close> past the smallest \<^verbatim>\<open>long\<close>: at
  \<open>f = -2147483648\<close>, \<open>q = 30\<close> the function returns 1 where the floor of \<open>f / 2 ^ 30\<close>
  is -2, the fractional part is 0, and \<open>1 * 2 ^ 30 + 0\<close> is not \<open>f\<close>. With a 64-bit
  \<^verbatim>\<open>long\<close> the same call returns -2.
\<close>

theorem fix_2_int_long32_overflow:
  "lw_math_fix_2_int TYPE(32) (- 2147483648) 30 = Some 1 \<and>
   lw_math_fix_fract_part TYPE(32) (- 2147483648) 30 = 0 \<and>
   sint (1 :: int32_t) * 2 ^ 30 + sint (0 :: fix_t) \<noteq> sint (- 2147483648 :: fix_t) \<and>
   sint (- 2147483648 :: fix_t) div 2 ^ 30 = - 2 \<and>
   lw_math_fix_2_int TYPE(64) (- 2147483648) 30 = Some (- 2)"
  by (simp add: lw_math_fix_2_int_def lw_math_fix_fract_part_def c_sdiv_def word_sle_eq)

section \<open>Integer square root: the iteration on the integers\<close>

lemma newton_step_pos:
  assumes "1 \<le> r" "1 \<le> n"
  shows "1 \<le> newton_step n r"
proof (cases "r = 1")
  case True
  with assms show ?thesis by (simp add: newton_step_def)
next
  case False
  with assms have "2 \<le> r" by simp
  moreover have "0 \<le> n div r"
    using assms by (simp add: pos_imp_zdiv_nonneg_iff)
  ultimately show ?thesis
    unfolding newton_step_def by linarith
qed

lemma mult_div_le:
  fixes n r :: int
  assumes "0 < r"
  shows "r * (n div r) \<le> n"
  using mult_div_mod_eq [of r n] pos_mod_sign [OF assms, of n] by linarith

lemma div_upper:
  fixes n r k :: int
  assumes "0 < r" "n < r * (k + 1)"
  shows "n div r \<le> k"
proof -
  have "r * (n div r) \<le> n"
    using assms(1) by (rule mult_div_le)
  with assms(2) have "r * (n div r) < r * (k + 1)" by linarith
  with assms(1) have "n div r < k + 1"
    by (simp add: mult_less_cancel_left_pos)
  then show ?thesis by simp
qed

lemma div_lower:
  fixes n r :: int
  assumes "0 < r"
  shows "n < r * (n div r + 1)"
proof -
  have "r * (n div r + 1) = r * (n div r) + r"
    by (simp add: algebra_simps)
  then show ?thesis
    using mult_div_mod_eq [of r n] pos_mod_bound [OF assms, of n] by linarith
qed

lemma newton_step_lower:
  assumes "1 \<le> r" "0 \<le> n"
  shows "n < (newton_step n r + 1)\<^sup>2"
proof -
  define q where "q = n div r"
  define t where "t = (r + q) div 2"
  have q0: "0 \<le> q"
    using assms by (simp add: q_def pos_imp_zdiv_nonneg_iff)
  have "n < r * (q + 1)"
    unfolding q_def using assms(1) by (intro div_lower) simp
  moreover have "0 \<le> (r - (q + 1))\<^sup>2" by simp
  then have "4 * (r * (q + 1)) \<le> (r + q + 1)\<^sup>2"
    by (simp add: power2_eq_square algebra_simps)
  moreover have "r + q + 1 \<le> 2 * t + 2"
    unfolding t_def by linarith
  then have "(r + q + 1)\<^sup>2 \<le> (2 * t + 2)\<^sup>2"
    using assms(1) q0 by (intro power_mono) simp_all
  moreover have "(2 * t + 2)\<^sup>2 = 4 * (t + 1)\<^sup>2"
    by (simp add: power2_eq_square algebra_simps)
  ultimately have "4 * n < 4 * (t + 1)\<^sup>2" by linarith
  then show ?thesis
    by (simp add: newton_step_def t_def q_def)
qed

lemma div_le_above_root:
  fixes n r :: int
  assumes "1 \<le> r" "n < (r + 1)\<^sup>2"
  shows "n div r \<le> r + 2"
proof -
  have "(r + 1)\<^sup>2 = r * (r + 2) + 1"
    by (simp add: power2_eq_square algebra_simps)
  with assms(2) have "n < r * ((r + 2) + 1)"
    using assms(1) by (simp add: algebra_simps)
  then show ?thesis
    using assms(1) by (intro div_upper) simp_all
qed

lemma newton_step_mono_input:
  assumes "1 \<le> r" "n \<le> n'"
  shows "newton_step n r \<le> newton_step n' r"
proof -
  have "n div r \<le> n' div r"
    using assms by (intro zdiv_mono1) simp_all
  then show ?thesis
    unfolding newton_step_def by (intro zdiv_mono1) simp_all
qed


lemma newton_step_mono_guess:
  assumes "1 \<le> r" "r \<le> r'" "0 \<le> n" "n \<le> r * (r + 1)"
  shows "newton_step n r \<le> newton_step n r'"
proof (cases "r = r'")
  case True
  then show ?thesis by simp
next
  case False
  with assms have r': "r + 1 \<le> r'" by simp
  define e where "e = r' - r"
  define q' where "q' = n div r'"
  have e: "1 \<le> e" "r' = r + e"
    using r' by (simp_all add: e_def)
  have "r * (r + 1) \<le> r * r'"
    using assms(1) r' by (intro mult_left_mono) simp_all
  with assms(4) have "n \<le> r * r'" by linarith
  then have "n div r' \<le> (r * r') div r'"
    using assms(1) r' by (intro zdiv_mono1) simp_all
  then have q'r: "q' \<le> r"
    using assms(1) r' by (simp add: q'_def)
  have "n div r \<le> q' + e"
  proof (cases "q' < r")
    case True
    have "n < r' * (q' + 1)"
      unfolding q'_def using assms(1) r' by (intro div_lower) simp
    moreover have "r' * (q' + 1) = r * (q' + 1) + e * (q' + 1)"
      by (simp add: e algebra_simps)
    moreover have "e * (q' + 1) \<le> e * r"
      using True e(1) by (intro mult_left_mono) simp_all
    moreover have "r * (q' + 1) + e * r = r * ((q' + e) + 1)"
      by (simp add: algebra_simps)
    ultimately have "n < r * ((q' + e) + 1)" by linarith
    then show ?thesis
      using assms(1) by (intro div_upper) simp_all
  next
    case False
    with q'r have q': "q' = r" by simp
    have "r' * q' \<le> n"
      unfolding q'_def using assms(1) r' by (intro mult_div_le) simp
    then have "r * r' \<le> r * (r + 1)"
      using assms(4) by (simp add: q' mult.commute)
    then have "r' \<le> r + 1"
      using assms(1) by (simp add: mult_le_cancel_left_pos)
    with r' have r'eq: "r' = r + 1" by simp
    with \<open>r' * q' \<le> n\<close> assms(4) have "n = r * (r + 1)"
      by (simp add: q' mult.commute)
    then have "n div r = r + 1"
      using assms(1) by simp
    then show ?thesis
      using r'eq by (simp add: q' e_def)
  qed
  then have "r + n div r \<le> r' + n div r'"
    by (simp add: q'_def e)
  then show ?thesis
    unfolding newton_step_def by (intro zdiv_mono1) simp_all
qed

lemma newton_step_mono:
  assumes "1 \<le> r" "r \<le> r'" "1 \<le> x" "x < y" "x < (r + 1)\<^sup>2"
  shows "newton_step x r \<le> newton_step y r'"
proof (cases "x \<le> r * (r + 1)")
  case True
  have "newton_step x r \<le> newton_step x r'"
    using assms True by (intro newton_step_mono_guess) simp_all
  also have "\<dots> \<le> newton_step y r'"
    using assms by (intro newton_step_mono_input) simp_all
  finally show ?thesis .
next
  case False
  define t where "t = newton_step y r'"
  have t1: "1 \<le> t"
    unfolding t_def using assms by (intro newton_step_pos) simp_all
  have yt: "y < (t + 1)\<^sup>2"
    unfolding t_def using assms by (intro newton_step_lower) simp_all
  show ?thesis
  proof (cases "x < r * (r + 2)")
    case True
    then have "x < r * ((r + 1) + 1)" by (simp add: algebra_simps)
    then have "x div r \<le> r + 1"
      using assms(1) by (intro div_upper) simp_all
    then have "newton_step x r \<le> r"
      unfolding newton_step_def by linarith
    moreover have "r\<^sup>2 \<le> r * (r + 1)"
      using assms(1) by (simp add: power2_eq_square algebra_simps)
    with False assms(4) yt have "r\<^sup>2 < (t + 1)\<^sup>2" by linarith
    then have "r < t + 1"
      by (rule power2_less_imp_less) (use t1 in simp_all)
    ultimately show ?thesis
      unfolding t_def by linarith
  next
    case False
    have "(r + 1)\<^sup>2 = r * (r + 2) + 1"
      by (simp add: power2_eq_square algebra_simps)
    with False assms(4) yt have "(r + 1)\<^sup>2 < (t + 1)\<^sup>2" by linarith
    then have "r + 1 < t + 1"
      by (rule power2_less_imp_less) (use t1 in simp_all)
    moreover have "x div r \<le> r + 2"
      using assms by (intro div_le_above_root) simp_all
    then have "newton_step x r \<le> r + 1"
      unfolding newton_step_def by linarith
    ultimately show ?thesis
      unfolding t_def by linarith
  qed
qed

lemma newton_iter_mono_above:
  assumes "1 \<le> r" "r \<le> r'" "1 \<le> x" "x < y" "x < (r + 1)\<^sup>2"
  shows "newton_iter k x r \<le> newton_iter k y r'"
  using assms
proof (induction k arbitrary: r r')
  case 0
  then show ?case by simp
next
  case (Suc k)
  have "newton_iter k x (newton_step x r) \<le> newton_iter k y (newton_step y r')"
  proof (rule Suc.IH)
    show "1 \<le> newton_step x r"
      using Suc.prems by (intro newton_step_pos) simp_all
    show "newton_step x r \<le> newton_step y r'"
      using Suc.prems by (intro newton_step_mono) simp_all
    show "x < (newton_step x r + 1)\<^sup>2"
      using Suc.prems by (intro newton_step_lower) simp_all
  qed (use Suc.prems in simp_all)
  then show ?case by simp
qed

lemma newton_iter_mono_seed:
  assumes "1 \<le> s" "1 \<le> x" "x \<le> y"
  shows "newton_iter (Suc k) x s \<le> newton_iter (Suc k) y s"
proof (cases "x = y")
  case True
  then show ?thesis by simp
next
  case False
  with assms have "x < y" by simp
  have "newton_iter k x (newton_step x s) \<le> newton_iter k y (newton_step y s)"
  proof (rule newton_iter_mono_above)
    show "1 \<le> newton_step x s"
      using assms by (intro newton_step_pos) simp_all
    show "newton_step x s \<le> newton_step y s"
      using assms by (intro newton_step_mono_input) simp_all
    show "x < (newton_step x s + 1)\<^sup>2"
      using assms by (intro newton_step_lower) simp_all
  qed (use assms \<open>x < y\<close> in simp_all)
  then show ?thesis by simp
qed


lemma newton_iter_pos:
  assumes "1 \<le> r" "1 \<le> n"
  shows "1 \<le> newton_iter k n r"
  using assms by (induction k arbitrary: r) (simp_all add: newton_step_pos)

lemma newton_iter_fixed:
  assumes "newton_step n r = r"
  shows "newton_iter k n r = r"
  using assms by (induction k) simp_all

lemma newton_step_in_range:
  assumes "1 \<le> r" "1 \<le> n" "n < 2147483648" "r + n div r < 4194304"
  shows "newton_step n r + n div newton_step n r < 4194304"
proof -
  define t where "t = newton_step n r"
  have t1: "1 \<le> t"
    unfolding t_def using assms by (intro newton_step_pos) simp_all
  have t2: "t < 2097152"
    unfolding t_def newton_step_def using assms(4) by linarith
  have nt: "n < (t + 1)\<^sup>2"
    unfolding t_def using assms by (intro newton_step_lower) simp_all
  have "t + n div t < 4194304"
  proof (cases "t < 65536")
    case True
    have "n div t \<le> t + 2"
      using t1 nt by (rule div_le_above_root)
    with True show ?thesis by linarith
  next
    case False
    have "n div t \<le> n div 65536"
      using assms(2) False by (intro zdiv_mono2) simp_all
    also have "\<dots> \<le> 2147483647 div 65536"
      using assms(3) by (intro zdiv_mono1) simp_all
    also have "\<dots> = 32767"
      by simp
    finally show ?thesis
      using t2 by linarith
  qed
  then show ?thesis
    by (simp add: t_def)
qed

lemma newton_iter_6_at_switch:
  "newton_iter 6 2097152 128 = 1448" "newton_iter 6 2097153 8192 = 1448"
proof -
  have "newton_step 2097152 128 = 8256" "newton_step 2097152 8256 = 4255"
    "newton_step 2097152 4255 = 2373" "newton_step 2097152 2373 = 1628"
    "newton_step 2097152 1628 = 1458" "newton_step 2097152 1458 = 1448"
    by (simp_all add: newton_step_def)
  then show "newton_iter 6 2097152 128 = 1448"
    by (simp add: eval_nat_numeral)
  have "newton_step 2097153 8192 = 4224" "newton_step 2097153 4224 = 2360"
    "newton_step 2097153 2360 = 1624" "newton_step 2097153 1624 = 1457"
    "newton_step 2097153 1457 = 1448" "newton_step 2097153 1448 = 1448"
    by (simp_all add: newton_step_def)
  then show "newton_iter 6 2097153 8192 = 1448"
    by (simp add: eval_nat_numeral)
qed

lemma spec_newton_eq:
  assumes "1 \<le> r" "1 \<le> n"
  shows "spec_newton k n r = newton_iter k n r"
  using assms
proof (induction k arbitrary: r)
  case 0
  then show ?case by simp
next
  case (Suc k)
  have "0 \<le> n div r"
    using Suc.prems by (simp add: pos_imp_zdiv_nonneg_iff)
  then have next_eq: "(r + n sdiv r) sdiv 2 = newton_step n r"
    using Suc.prems by (simp add: sdiv_pos_divisor newton_step_def)
  show ?case
  proof (cases "newton_step n r = r")
    case True
    then show ?thesis
      by (simp add: next_eq newton_iter_fixed)
  next
    case False
    moreover have "1 \<le> newton_step n r"
      using Suc.prems by (rule newton_step_pos)
    ultimately show ?thesis
      using Suc.prems by (simp add: next_eq Suc.IH)
  qed
qed

lemma spec_sqrt_eq:
  "spec_sqrt n = (if n \<le> 0 then 0 else newton_iter 6 n (if n \<le> 2097152 then 128 else 8192))"
  by (simp add: spec_sqrt_def spec_newton_eq)

lemma spec_sqrt_mono:
  assumes "0 \<le> x" "x \<le> y"
  shows "spec_sqrt x \<le> spec_sqrt y"
proof (cases "x = 0")
  case True
  have "0 \<le> spec_sqrt y"
    using newton_iter_pos [of 128 y 6] newton_iter_pos [of 8192 y 6]
    by (auto simp: spec_sqrt_eq)
  with True show ?thesis
    by (simp add: spec_sqrt_eq)
next
  case False
  with assms have x: "1 \<le> x" and y: "1 \<le> y" by simp_all
  have six: "(6 :: nat) = Suc 5" by simp
  consider "y \<le> 2097152" | "2097152 < x" | "x \<le> 2097152" "2097152 < y"
    using assms by linarith
  then show ?thesis
  proof cases
    case 1
    with assms x show ?thesis
      unfolding spec_sqrt_eq six using newton_iter_mono_seed [of 128 x y 5] by simp
  next
    case 2
    with assms x show ?thesis
      unfolding spec_sqrt_eq six using newton_iter_mono_seed [of 8192 x y 5] by simp
  next
    case 3
    have "newton_iter (Suc 5) x 128 \<le> newton_iter (Suc 5) 2097152 128"
      using x 3 by (intro newton_iter_mono_seed) simp_all
    moreover have "newton_iter (Suc 5) 2097153 8192 \<le> newton_iter (Suc 5) y 8192"
      using 3 by (intro newton_iter_mono_seed) simp_all
    ultimately have "newton_iter 6 x 128 \<le> newton_iter 6 y 8192"
      using newton_iter_6_at_switch by (simp only: six [symmetric])
    with 3 x show ?thesis
      by (simp add: spec_sqrt_eq)
  qed
qed

section \<open>Integer square root: the loop on machine words\<close>

lemma sqrt_step_word:
  fixes input root :: int32_t
  assumes "1 \<le> sint root" "1 \<le> sint input"
    and "sint root + sint input div sint root < 4194304"
  shows "sint (c_sdiv (root + c_sdiv input root) 2) = newton_step (sint input) (sint root)"
proof -
  let ?n = "sint input" and ?r = "sint root"
  have q0: "0 \<le> ?n div ?r"
    using assms by (simp add: pos_imp_zdiv_nonneg_iff)
  have "sint (c_sdiv input root) = ?n sdiv ?r"
    using assms(1) by (intro sint_c_sdiv32) simp
  also have "\<dots> = ?n div ?r"
    using assms by (simp add: sdiv_pos_divisor)
  finally have q: "sint (c_sdiv input root) = ?n div ?r" .
  have "sint (root + c_sdiv input root) = signed_take_bit (LENGTH(32) - 1) (?r + sint (c_sdiv input root))"
    by (rule sint_word_add)
  also have "\<dots> = signed_take_bit 31 (?r + ?n div ?r)"
    unfolding q by simp
  also have "\<dots> = ?r + ?n div ?r"
    using assms q0 by (intro stb31_id) linarith+
  finally have s: "sint (root + c_sdiv input root) = ?r + ?n div ?r" .
  have "sint (c_sdiv (root + c_sdiv input root) 2) = sint (root + c_sdiv input root) sdiv sint (2 :: int32_t)"
    by (rule sint_c_sdiv32) simp
  also have "\<dots> = (?r + ?n div ?r) div 2"
    unfolding s using assms(1) q0 by (simp add: sdiv_pos_divisor)
  finally show ?thesis
    by (simp add: newton_step_def)
qed

lemma biter_succ:
  fixes biter :: uint8_t
  assumes "unat biter < 6"
  shows "unat (biter + 1) = Suc (unat biter)" "biter + 1 < 6 \<longleftrightarrow> unat biter < 5"
  using assms by (simp_all add: word_less_nat_alt unat_word_ariths)

lemma sqrt_loop_correct:
  assumes "unat biter < 6" "1 \<le> sint root" "1 \<le> sint input"
    and "sint root + sint input div sint root < 4194304"
  shows "\<exists>w. sqrt_loop input biter root = Some w \<and>
    sint w = newton_iter (6 - unat biter) (sint input) (sint root)"
  using assms
proof (induction input biter root rule: sqrt_loop.induct)
  case (1 input biter root)
  let ?n = "sint input" and ?r = "sint root"
  define new where "new = c_sdiv (root + c_sdiv input root) 2"
  have new: "sint new = newton_step ?n ?r"
    unfolding new_def using "1.prems"(2-4) by (rule sqrt_step_word)
  have nz: "root \<noteq> 0"
    using "1.prems"(2) by auto
  have k: "6 - unat biter = Suc (5 - unat biter)"
    using "1.prems"(1) by simp
  show ?case
  proof (cases "new = root")
    case True
    then have "sqrt_loop input biter root = Some new"
      by (subst sqrt_loop.simps) (simp add: nz Let_def flip: new_def)
    moreover have "newton_step ?n ?r = ?r"
      using new True by simp
    then have "newton_iter (6 - unat biter) ?n ?r = sint new"
      using True by (simp add: newton_iter_fixed)
    ultimately show ?thesis by simp
  next
    case False
    show ?thesis
    proof (cases "unat biter < 5")
      case True
      then have lt: "biter + 1 < 6"
        using "1.prems"(1) by (simp add: biter_succ)
      have unfold: "sqrt_loop input biter root = sqrt_loop input (biter + 1) new"
        using False lt by (subst sqrt_loop.simps) (simp add: nz Let_def flip: new_def)
      have "\<exists>w. sqrt_loop input (biter + 1) new = Some w \<and>
          sint w = newton_iter (6 - unat (biter + 1)) ?n (sint new)"
      proof (rule "1.IH" [OF nz])
        show "new = c_sdiv (root + c_sdiv input root) 2"
          by (rule new_def)
        show "biter + 1 = (if new = root then 6 else biter + 1)"
          using False by simp
        show "new = (if new = root then root else new)"
          by simp
        show "biter + 1 < 6"
          by (rule lt)
        show "unat (biter + 1) < 6"
          using True "1.prems"(1) by (simp add: biter_succ)
        show "1 \<le> sint new"
          unfolding new using "1.prems" by (intro newton_step_pos) simp_all
        show "1 \<le> ?n"
          by (rule "1.prems")
        show "sint new + ?n div sint new < 4194304"
          unfolding new using "1.prems" sint32_range [of input]
          by (intro newton_step_in_range) simp_all
      qed
      moreover have "6 - unat biter = Suc (6 - unat (biter + 1))"
        using True "1.prems"(1) by (simp add: biter_succ)
      ultimately show ?thesis
        by (simp add: unfold new)
    next
      case nlt: False
      with "1.prems"(1) have five: "unat biter = 5" by simp
      then have "\<not> biter + 1 < 6"
        using "1.prems"(1) by (simp add: biter_succ)
      then have "sqrt_loop input biter root = Some new"
        using False by (subst sqrt_loop.simps) (simp add: nz Let_def flip: new_def)
      then show ?thesis
        by (simp add: five new)
    qed
  qed
qed

lemma lw_math_sqrt_correct:
  "\<exists>w. lw_math_sqrt input = Some w \<and> sint w = spec_sqrt (sint input)"
proof (cases "0 <s input")
  case False
  then show ?thesis
    by (simp add: lw_math_sqrt_def spec_sqrt_eq word_sless_alt)
next
  case True
  then have n: "1 \<le> sint input"
    by (simp add: word_sless_alt)
  define seed :: int32_t where "seed = (if input \<le>s 2097152 then 128 else 8192)"
  have seed: "sint seed = (if sint input \<le> 2097152 then 128 else 8192)"
    by (simp add: seed_def word_sle_eq)
  have "sint seed + sint input div sint seed < 4194304"
  proof (cases "sint input \<le> 2097152")
    case True
    then have "sint input div 128 \<le> 2097152 div 128"
      by (intro zdiv_mono1) simp_all
    with True show ?thesis
      by (simp add: seed)
  next
    case False
    have "sint input div 8192 \<le> 2147483647 div 8192"
      using sint32_range [of input] by (intro zdiv_mono1) simp_all
    with False show ?thesis
      by (simp add: seed)
  qed
  moreover have "1 \<le> sint seed" "unat (0 :: uint8_t) < 6"
    by (simp_all add: seed)
  ultimately have "\<exists>w. sqrt_loop input 0 seed = Some w \<and>
      sint w = newton_iter (6 - unat (0 :: uint8_t)) (sint input) (sint seed)"
    using n by (intro sqrt_loop_correct) simp_all
  then show ?thesis
    using True n by (simp add: lw_math_sqrt_def seed_def [symmetric] spec_sqrt_eq seed)
qed

text \<open>
  Claim C7. \<^verbatim>\<open>lw_math_sqrt\<close> returns for every input, without dividing by zero and
  without overflow: 0 for every input \<open>\<le> 0\<close>, and for every input \<open>> 0\<close> the result of
  iterating \<open>next = (guess + input / guess) / 2\<close> with truncating division from the guess
  128 if \<open>input \<le> 2097152\<close> and 8192 otherwise, stopping when \<open>next = guess\<close> or after
  6 iterations, whichever comes first.
\<close>

theorem lw_math_sqrt_newton:
  "\<exists>w. lw_math_sqrt input = Some w \<and> sint w = spec_sqrt (sint input) \<and>
     spec_sqrt (sint input) =
       (if sint input \<le> 0 then 0
        else spec_newton 6 (sint input) (if sint input \<le> 2097152 then 128 else 8192)) \<and>
     (if sint input \<le> 0 then w = 0 else 1 \<le> sint w)"
proof -
  obtain w where w: "lw_math_sqrt input = Some w" "sint w = spec_sqrt (sint input)"
    using lw_math_sqrt_correct [of input] by blast
  have "w = 0" if "sint input \<le> 0"
    using that w(2) by (simp add: spec_sqrt_eq signed_eq_0_iff)
  moreover have "1 \<le> sint w" if "\<not> sint input \<le> 0"
    using that newton_iter_pos [of 128 "sint input" 6] newton_iter_pos [of 8192 "sint input" 6]
    by (auto simp: w(2) spec_sqrt_eq)
  ultimately show ?thesis
    using w by (intro exI [of _ w]) (simp add: spec_sqrt_def)
qed

text \<open>
  Claim C8. \<^verbatim>\<open>lw_math_sqrt\<close> is monotonic non-decreasing on non-negative inputs: for all
  32-bit \<open>x\<close>, \<open>y\<close> with \<open>0 \<le> x \<le> y\<close> both calls return and
  \<open>lw_math_sqrt(x) \<le> lw_math_sqrt(y)\<close>.
\<close>

theorem lw_math_sqrt_monotone:
  assumes "0 \<le>s x" and "x \<le>s y"
  shows "\<exists>v w. lw_math_sqrt x = Some v \<and> lw_math_sqrt y = Some w \<and> v \<le>s w"
proof -
  obtain v where v: "lw_math_sqrt x = Some v" "sint v = spec_sqrt (sint x)"
    using lw_math_sqrt_correct [of x] by blast
  obtain w where w: "lw_math_sqrt y = Some w" "sint w = spec_sqrt (sint y)"
    using lw_math_sqrt_correct [of y] by blast
  have "spec_sqrt (sint x) \<le> spec_sqrt (sint y)"
    using assms by (intro spec_sqrt_mono) (simp_all add: word_sle_eq)
  then have "v \<le>s w"
    by (simp add: word_sle_eq v w)
  with v w show ?thesis by blast
qed

theorem lw_math_sqrt_monotone_witness:
  "(0 :: int32_t) \<le>s 7 \<and> (7 :: int32_t) \<le>s 8 \<and>
   (\<exists>v w. lw_math_sqrt 7 = Some v \<and> lw_math_sqrt 8 = Some w \<and> v \<le>s w) \<and>
   lw_math_sqrt 7 = Some 2 \<and> lw_math_sqrt 8 = Some 3"
  using lw_math_sqrt_monotone [of 7 8]
  by (simp add: lw_math_sqrt_def sqrt_loop.simps c_sdiv_def word_sless_alt word_sle_eq)

end
